theory Spec2Isabelle
  imports Main
begin

section \<open>Timing wrappers (src/util.ts)\<close>

text \<open>
  The wrappers of \<^verbatim>\<open>util.ts\<close> are closures over a little private state and the host's
  timer facility. The model makes both explicit. Time is the integer number of
  milliseconds that \<^verbatim>\<open>Date.now()\<close> reports. The receiver and the argument list of a call
  are opaque to the wrappers, so they are type parameters \<open>'c\<close> and \<open>'a\<close>. The callback is
  an opaque action of type \<^verbatim>\<open>(...args) => void\<close>: running it is recorded by appending the
  receiver and the arguments it was applied to, to the log \<open>fired\<close>.

  A pending \<^verbatim>\<open>setTimeout\<close> entry is \<open>(id, due, receiver, arguments)\<close>: the host may run
  it at any time from \<open>due\<close> on and never before. Timer ids are positive, as the
  wrappers test them for truthiness.
\<close>

type_synonym ('c, 'a) task = "nat \<times> int \<times> 'c \<times> 'a"

definition setTimeout :: "nat \<Rightarrow> int \<Rightarrow> int \<Rightarrow> 'c \<Rightarrow> 'a \<Rightarrow> ('c, 'a) task list \<Rightarrow> ('c, 'a) task list" where
  "setTimeout i now delay c a q = q @ [(i, now + max 0 delay, c, a)]"

definition clearTimeout :: "nat \<Rightarrow> ('c, 'a) task list \<Rightarrow> ('c, 'a) task list" where
  "clearTimeout i q = filter (\<lambda>(j, due, c, a). j \<noteq> i) q"

text \<open>The entry with id \<open>i\<close>, when the host may run it at time \<open>now\<close>.\<close>

definition dueTask :: "int \<Rightarrow> nat \<Rightarrow> ('c, 'a) task list \<Rightarrow> ('c, 'a) task option" where
  "dueTask now i q = find (\<lambda>(j, due, c, a). j = i \<and> due \<le> now) q"

text \<open>
  What happens to a wrapper: it is called at some time with a receiver and arguments,
  or the host tries to run timer \<open>i\<close> at some time.
\<close>

datatype ('c, 'a) event = Invoke int 'c 'a | Expire int nat

subsection \<open>throttle\<close>

text \<open>
  \<^verbatim>\<open>
  let lastRunTick = 0;
  return function (...args) {
      if (!lastRunTick || (Date.now() - lastRunTick) >= delay) {
          callback.apply(this, args);
          lastRunTick = Date.now();
      }
  };
  \<close>
  The clock is read twice in an accepted call: \<open>now1\<close> in the test (when
  \<open>lastRunTick\<close> is not zero) and \<open>now2\<close> once the callback has returned.
\<close>

record ('c, 'a) throttleState =
  lastRunTick :: int
  firedT :: "('c \<times> 'a) list"

definition throttle :: "('c, 'a) throttleState" where
  "throttle = \<lparr>lastRunTick = 0, firedT = []\<rparr>"

definition throttled :: "int \<Rightarrow> int \<Rightarrow> int \<Rightarrow> 'c \<Rightarrow> 'a \<Rightarrow> ('c, 'a) throttleState \<Rightarrow> ('c, 'a) throttleState" where
  "throttled delay now1 now2 c a s =
     (if lastRunTick s = 0 \<or> now1 - lastRunTick s \<ge> delay
      then s\<lparr>firedT := firedT s @ [(c, a)], lastRunTick := now2\<rparr>
      else s)"

fun runThrottled :: "int \<Rightarrow> (int \<times> int \<times> 'c \<times> 'a) list \<Rightarrow> ('c, 'a) throttleState \<Rightarrow> ('c, 'a) throttleState" where
  "runThrottled delay [] s = s"
| "runThrottled delay ((now1, now2, c, a) # cs) s = runThrottled delay cs (throttled delay now1 now2 c a s)"

text \<open>
  The calls the specification accepts, written from its words: the first call is
  accepted; a call made before \<open>delay\<close> has elapsed since the last accepted call is
  dropped; a call at or after that is accepted and restarts the window. \<open>last\<close> is the
  tick recorded at the last accepted call, \<open>None\<close> before the first.
\<close>

fun acceptedCalls :: "int \<Rightarrow> int option \<Rightarrow> (int \<times> int \<times> 'c \<times> 'a) list \<Rightarrow> ('c \<times> 'a) list" where
  "acceptedCalls delay l [] = []"
| "acceptedCalls delay None ((now1, now2, c, a) # cs) = (c, a) # acceptedCalls delay (Some now2) cs"
| "acceptedCalls delay (Some l) ((now1, now2, c, a) # cs) =
     (if now1 - l < delay then acceptedCalls delay (Some l) cs
      else (c, a) # acceptedCalls delay (Some now2) cs)"

subsection \<open>debounce\<close>

text \<open>
  \<^verbatim>\<open>
  let timer: any;
  return function (...args) {
      timer && clearTimeout(timer);
      let context = this;
      timer = setTimeout(function () {
          callback.apply(context, args);
          context = null;
          timer = null;
      }, delay);
  };
  \<close>
\<close>

record ('c, 'a) debounceState =
  timer :: "nat option"
  queueD :: "('c, 'a) task list"
  nextIdD :: nat
  firedD :: "('c \<times> 'a) list"

definition debounce :: "('c, 'a) debounceState" where
  "debounce = \<lparr>timer = None, queueD = [], nextIdD = 1, firedD = []\<rparr>"

definition debounced :: "int \<Rightarrow> int \<Rightarrow> 'c \<Rightarrow> 'a \<Rightarrow> ('c, 'a) debounceState \<Rightarrow> ('c, 'a) debounceState" where
  "debounced delay now c a s =
     (let q = (case timer s of
                 Some i \<Rightarrow> if i \<noteq> 0 then clearTimeout i (queueD s) else queueD s
               | None \<Rightarrow> queueD s);
          i = nextIdD s
      in s\<lparr>timer := Some i, queueD := setTimeout i now delay c a q, nextIdD := Suc i\<rparr>)"

text \<open>The host runs timer \<open>i\<close> at time \<open>now\<close>: nothing happens unless it is pending and due.\<close>

definition expireD :: "int \<Rightarrow> nat \<Rightarrow> ('c, 'a) debounceState \<Rightarrow> ('c, 'a) debounceState" where
  "expireD now i s =
     (case dueTask now i (queueD s) of
        None \<Rightarrow> s
      | Some (j, due, c, a) \<Rightarrow>
          s\<lparr>queueD := clearTimeout i (queueD s), firedD := firedD s @ [(c, a)], timer := None\<rparr>)"

fun stepD :: "int \<Rightarrow> ('c, 'a) event \<Rightarrow> ('c, 'a) debounceState \<Rightarrow> ('c, 'a) debounceState" where
  "stepD delay (Invoke now c a) s = debounced delay now c a s"
| "stepD delay (Expire now i) s = expireD now i s"

fun runD :: "int \<Rightarrow> ('c, 'a) event list \<Rightarrow> ('c, 'a) debounceState \<Rightarrow> ('c, 'a) debounceState" where
  "runD delay [] s = s"
| "runD delay (e # es) s = runD delay es (stepD delay e s)"

text \<open>
  A chain of calls after a call at time \<open>t\<close>: every further call comes at or after the
  previous one and less than \<open>delay\<close> after it. The host may try any timer in between;
  such an attempt then also lies less than \<open>delay\<close> after the latest call.
\<close>

fun burst :: "int \<Rightarrow> int \<Rightarrow> ('c, 'a) event list \<Rightarrow> bool" where
  "burst delay t [] = True"
| "burst delay t (Invoke u c a # es) = (t \<le> u \<and> u < t + delay \<and> burst delay u es)"
| "burst delay t (Expire u i # es) = (u < t + delay \<and> burst delay t es)"

text \<open>The time, receiver and arguments of the last call of a chain that starts with \<open>(t, c, a)\<close>.\<close>

fun lastInvoke :: "int \<times> 'c \<times> 'a \<Rightarrow> ('c, 'a) event list \<Rightarrow> int \<times> 'c \<times> 'a" where
  "lastInvoke l [] = l"
| "lastInvoke l (Invoke u c a # es) = lastInvoke (u, c, a) es"
| "lastInvoke l (Expire u i # es) = lastInvoke l es"

text \<open>No call is pending: no timer is set.\<close>

definition idleD :: "('c, 'a) debounceState \<Rightarrow> bool" where
  "idleD s = (timer s = None \<and> queueD s = [] \<and> 0 < nextIdD s)"

text \<open>
  The invariant of a chain: the callback ran as often as \<open>f\<close> says, and exactly one
  timer is pending, the one the call \<open>l\<close> set.
\<close>

definition pendingD :: "int \<Rightarrow> ('c, 'a) debounceState \<Rightarrow> int \<times> 'c \<times> 'a \<Rightarrow> ('c \<times> 'a) list \<Rightarrow> bool" where
  "pendingD delay s l f = (case l of (u, c, a) \<Rightarrow>
     firedD s = f \<and> 0 < nextIdD s \<and>
     (\<exists>i. 0 < i \<and> timer s = Some i \<and> queueD s = [(i, u + max 0 delay, c, a)]))"

subsection \<open>throttleAfter\<close>

text \<open>
  \<^verbatim>\<open>
  let ran = false;
  return function (...args) {
      if (!ran) {
          let context = this;
          ran = true;
          setTimeout(function () {
              callback.apply(context, args);
              context = null;
              ran = false;
          }, delay);
      }
  };
  \<close>
\<close>

record ('c, 'a) throttleAfterState =
  ran :: bool
  queueA :: "('c, 'a) task list"
  nextIdA :: nat
  firedA :: "('c \<times> 'a) list"

definition throttleAfter :: "('c, 'a) throttleAfterState" where
  "throttleAfter = \<lparr>ran = False, queueA = [], nextIdA = 1, firedA = []\<rparr>"

definition throttledAfter :: "int \<Rightarrow> int \<Rightarrow> 'c \<Rightarrow> 'a \<Rightarrow> ('c, 'a) throttleAfterState \<Rightarrow> ('c, 'a) throttleAfterState" where
  "throttledAfter delay now c a s =
     (if \<not> ran s
      then s\<lparr>ran := True, queueA := setTimeout (nextIdA s) now delay c a (queueA s),
             nextIdA := Suc (nextIdA s)\<rparr>
      else s)"

definition expireA :: "int \<Rightarrow> nat \<Rightarrow> ('c, 'a) throttleAfterState \<Rightarrow> ('c, 'a) throttleAfterState" where
  "expireA now i s =
     (case dueTask now i (queueA s) of
        None \<Rightarrow> s
      | Some (j, due, c, a) \<Rightarrow>
          s\<lparr>queueA := clearTimeout i (queueA s), firedA := firedA s @ [(c, a)], ran := False\<rparr>)"

fun stepA :: "int \<Rightarrow> ('c, 'a) event \<Rightarrow> ('c, 'a) throttleAfterState \<Rightarrow> ('c, 'a) throttleAfterState" where
  "stepA delay (Invoke now c a) s = throttledAfter delay now c a s"
| "stepA delay (Expire now i) s = expireA now i s"

fun runA :: "int \<Rightarrow> ('c, 'a) event list \<Rightarrow> ('c, 'a) throttleAfterState \<Rightarrow> ('c, 'a) throttleAfterState" where
  "runA delay [] s = s"
| "runA delay (e # es) s = runA delay es (stepA delay e s)"

text \<open>
  What may happen inside a window opened at time \<open>t\<close> before its execution: any further
  call, at any time, and attempts of the host to run a timer before the delay is over.
\<close>

fun window :: "int \<Rightarrow> int \<Rightarrow> ('c, 'a) event list \<Rightarrow> bool" where
  "window delay t [] = True"
| "window delay t (Invoke u c a # es) = window delay t es"
| "window delay t (Expire u i # es) = (u < t + delay \<and> window delay t es)"

definition idleA :: "('c, 'a) throttleAfterState \<Rightarrow> bool" where
  "idleA s = (\<not> ran s \<and> queueA s = [])"

text \<open>The invariant of a window: timer \<open>k\<close>, set by the call \<open>(t, c, a)\<close>, is the one pending.\<close>

definition pendingA :: "int \<Rightarrow> ('c, 'a) throttleAfterState \<Rightarrow> int \<Rightarrow> 'c \<Rightarrow> 'a \<Rightarrow> ('c \<times> 'a) list \<Rightarrow> nat \<Rightarrow> bool" where
  "pendingA delay s t c a f k = (firedA s = f \<and> ran s \<and> queueA s = [(k, t + max 0 delay, c, a)])"


section \<open>Objects (src/lang.ts)\<close>

text \<open>
  The store is a list of objects; the address of an object is its index, and
  allocation appends. A value is a primitive or a reference. Numbers are integers,
  with \<open>NaN\<close> apart. An object has a prototype link, a kind (what \<^verbatim>\<open>typeof\<close> and
  \<^verbatim>\<open>Array.isArray\<close> see), the elements of a dense array, and its named own
  properties in the order the engine reports them, each with its descriptor.
  Outside the model: sparse arrays, symbols, proxies, and a primitive passed as a
  source or as the target of \<^verbatim>\<open>copy\<close>.
\<close>

type_synonym addr = nat

datatype val = Undefined | Null | Bool bool | Num int | NaN | Str string | Ref addr

text \<open>\<open>Data v writable enumerable configurable\<close>, \<open>Accessor get set enumerable configurable\<close>.\<close>

datatype descriptor = Data val bool bool bool | Accessor val val bool bool

datatype kind = Ordinary | ArrayObj | FunctionObj

record obj =
  proto :: "addr option"
  kind :: kind
  elems :: "val list"
  props :: "(string \<times> descriptor) list"
  extensible :: bool

type_synonym heap = "obj list"

datatype error = RangeError string | TypeError | Thrown val | StackExhausted | OutsideModel

text \<open>
  Calling a function value (a getter, a setter, a bound method) is the engine's
  business: \<open>iv h f this args\<close> is the value thrown, or the store and the value
  returned.
\<close>

type_synonym invoke = "heap \<Rightarrow> val \<Rightarrow> val \<Rightarrow> val list \<Rightarrow> val + heap \<times> val"

text \<open>The intrinsics the code names: \<^verbatim>\<open>Object.prototype\<close>, \<^verbatim>\<open>Array.prototype\<close>, \<^verbatim>\<open>RegExp.prototype\<close>.\<close>

definition ObjectPrototype :: addr where "ObjectPrototype = 0"
definition ArrayPrototype :: addr where "ArrayPrototype = 1"
definition RegExpPrototype :: addr where "RegExpPrototype = 2"

definition alloc :: "heap \<Rightarrow> obj \<Rightarrow> heap \<times> addr" where
  "alloc h ob = (h @ [ob], length h)"

text \<open>\<^verbatim>\<open>Object.create(p)\<close>; \<^verbatim>\<open>{}\<close> is \<open>newObject (Some ObjectPrototype)\<close>.\<close>

definition newObject :: "addr option \<Rightarrow> obj" where
  "newObject p = \<lparr>proto = p, kind = Ordinary, elems = [], props = [], extensible = True\<rparr>"

definition newArray :: "val list \<Rightarrow> obj" where
  "newArray vs = \<lparr>proto = Some ArrayPrototype, kind = ArrayObj, elems = vs, props = [], extensible = True\<rparr>"

subsection \<open>Own properties\<close>

fun digit :: "nat \<Rightarrow> char" where
  "digit n = (''0123456789'' ! n)"

text \<open>The decimal name of an array index.\<close>

fun indexName :: "nat \<Rightarrow> string" where
  "indexName n = (if n < 10 then [digit n] else indexName (n div 10) @ [digit (n mod 10)])"

declare indexName.simps [simp del]

definition isIndexName :: "string \<Rightarrow> bool" where
  "isIndexName n = (n \<noteq> [] \<and> list_all (\<lambda>c. c \<in> set ''0123456789'') n \<and> (n = ''0'' \<or> hd n \<noteq> CHR ''0''))"

text \<open>\<^verbatim>\<open>Object.getOwnPropertyNames\<close>: an array has its indices and \<^verbatim>\<open>length\<close> before its named properties.\<close>

definition ownNames :: "obj \<Rightarrow> string list" where
  "ownNames ob =
     (if kind ob = ArrayObj then map indexName [0..<length (elems ob)] @ [''length''] else [])
     @ map fst (props ob)"

text \<open>\<^verbatim>\<open>Object.getOwnPropertyDescriptor\<close>.\<close>

definition ownDesc :: "obj \<Rightarrow> string \<Rightarrow> descriptor option" where
  "ownDesc ob n =
     (if kind ob = ArrayObj then
        (case find (\<lambda>i. indexName i = n) [0..<length (elems ob)] of
           Some i \<Rightarrow> Some (Data (elems ob ! i) True True True)
         | None \<Rightarrow>
             if n = ''length'' then Some (Data (Num (int (length (elems ob)))) True False False)
             else map_of (props ob) n)
      else map_of (props ob) n)"

fun isEnumerable :: "descriptor \<Rightarrow> bool" where
  "isEnumerable (Data v w e c) = e"
| "isEnumerable (Accessor g s e c) = e"

fun isConfigurable :: "descriptor \<Rightarrow> bool" where
  "isConfigurable (Data v w e c) = c"
| "isConfigurable (Accessor g s e c) = c"

text \<open>Writing the descriptor of a named property: in place when the name is there, else at the end.\<close>

fun setDesc :: "string \<Rightarrow> descriptor \<Rightarrow> (string \<times> descriptor) list \<Rightarrow> (string \<times> descriptor) list" where
  "setDesc n d [] = [(n, d)]"
| "setDesc n d ((m, e) # ps) = (if m = n then (n, d) # ps else (m, e) # setDesc n d ps)"

definition putOwn :: "heap \<Rightarrow> addr \<Rightarrow> string \<Rightarrow> descriptor \<Rightarrow> heap" where
  "putOwn h a n d = h[a := (h ! a)\<lparr>props := setDesc n d (props (h ! a))\<rparr>]"

text \<open>The index and \<^verbatim>\<open>length\<close> properties of an array are exotic: writing them is outside the model.\<close>

definition exotic :: "obj \<Rightarrow> string \<Rightarrow> bool" where
  "exotic ob n = (kind ob = ArrayObj \<and> (n = ''length'' \<or> isIndexName n))"

subsection \<open>Prototype chains\<close>

text \<open>
  The chain of an object: itself, its prototype, and so on to a null prototype. The
  engine keeps chains acyclic, so a chain has at most as many members as the store
  has objects; \<open>None\<close> is a cyclic or dangling chain, which no engine builds.
\<close>

fun chainFrom :: "nat \<Rightarrow> heap \<Rightarrow> addr \<Rightarrow> addr list option" where
  "chainFrom 0 h a = None"
| "chainFrom (Suc k) h a =
     (if a < length h then
        (case proto (h ! a) of
           None \<Rightarrow> Some [a]
         | Some p \<Rightarrow> map_option ((#) a) (chainFrom k h p))
      else None)"

definition protoChain :: "heap \<Rightarrow> addr \<Rightarrow> addr list" where
  "protoChain h a = (case chainFrom (length h) h a of Some c \<Rightarrow> c | None \<Rightarrow> [])"

fun findDesc :: "heap \<Rightarrow> addr list \<Rightarrow> string \<Rightarrow> descriptor option" where
  "findDesc h [] n = None"
| "findDesc h (a # as) n = (case ownDesc (h ! a) n of Some d \<Rightarrow> Some d | None \<Rightarrow> findDesc h as n)"

text \<open>
  \<^verbatim>\<open>
  export function getPropertyDescriptor(object, property) {
      let descriptor;
      do { descriptor = Object.getOwnPropertyDescriptor(object, property); }
      while (!descriptor && (object = Object.getPrototypeOf(object)));
      return descriptor;
  }
  \<close>
\<close>

definition getPropertyDescriptor :: "heap \<Rightarrow> addr \<Rightarrow> string \<Rightarrow> descriptor option" where
  "getPropertyDescriptor h object property = findDesc h (protoChain h object) property"

subsection \<open>Reading, assigning and defining a property\<close>

definition call :: "invoke \<Rightarrow> heap \<Rightarrow> val \<Rightarrow> val \<Rightarrow> val list \<Rightarrow> error + heap \<times> val" where
  "call iv h f this args = (case iv h f this args of Inl e \<Rightarrow> Inl (Thrown e) | Inr r \<Rightarrow> Inr r)"

text \<open>\<^verbatim>\<open>object[name]\<close>: the first descriptor on the chain; a getter is called on the object.\<close>

definition Get :: "invoke \<Rightarrow> heap \<Rightarrow> addr \<Rightarrow> string \<Rightarrow> error + heap \<times> val" where
  "Get iv h a n =
     (case findDesc h (protoChain h a) n of
        None \<Rightarrow> Inr (h, Undefined)
      | Some (Data v w e c) \<Rightarrow> Inr (h, v)
      | Some (Accessor g s e c) \<Rightarrow> if g = Undefined then Inr (h, Undefined) else call iv h g (Ref a) [])"

text \<open>An assignment that does not take effect throws in strict code and is skipped in sloppy code.\<close>

definition reject :: "bool \<Rightarrow> heap \<Rightarrow> error + heap" where
  "reject strict h = (if strict then Inl TypeError else Inr h)"

text \<open>The last step of an assignment: the value is stored in the receiver's own data property.\<close>

definition storeOwn :: "bool \<Rightarrow> heap \<Rightarrow> addr \<Rightarrow> string \<Rightarrow> val \<Rightarrow> error + heap" where
  "storeOwn strict h a n v =
     (case ownDesc (h ! a) n of
        Some (Accessor g s e c) \<Rightarrow> reject strict h
      | Some (Data u w e c) \<Rightarrow> if w then Inr (putOwn h a n (Data v w e c)) else reject strict h
      | None \<Rightarrow> if extensible (h ! a) then Inr (putOwn h a n (Data v True True True)) else reject strict h)"

text \<open>
  \<^verbatim>\<open>object[name] = value\<close>: a setter found on the chain is called; a read-only
  property found on the chain refuses the assignment; else the value is stored in an own
  property.
\<close>

definition Put :: "invoke \<Rightarrow> bool \<Rightarrow> heap \<Rightarrow> addr \<Rightarrow> string \<Rightarrow> val \<Rightarrow> error + heap" where
  "Put iv strict h a n v =
     (if exotic (h ! a) n then Inl OutsideModel
      else case findDesc h (protoChain h a) n of
        Some (Accessor g s e c) \<Rightarrow>
          if s = Undefined then reject strict h
          else (case call iv h s (Ref a) [v] of Inl x \<Rightarrow> Inl x | Inr (h', r) \<Rightarrow> Inr h')
      | Some (Data u w e c) \<Rightarrow> if w then storeOwn strict h a n v else reject strict h
      | None \<Rightarrow> storeOwn strict h a n v)"

text \<open>
  \<^verbatim>\<open>Object.defineProperty(object, name, descriptor)\<close> with a complete descriptor: a new
  property needs an extensible object; a property that is not configurable accepts only
  its own descriptor again, or, when it is a writable data property, a new value and
  \<^verbatim>\<open>writable: false\<close>.
\<close>

fun compatible :: "descriptor \<Rightarrow> descriptor \<Rightarrow> bool" where
  "compatible (Data u w e c) (Data v w' e' c') =
     (c \<or> (\<not> c' \<and> e' = e \<and> (w \<or> (\<not> w' \<and> v = u))))"
| "compatible (Accessor g s e c) (Accessor g' s' e' c') =
     (c \<or> (\<not> c' \<and> e' = e \<and> g' = g \<and> s' = s))"
| "compatible (Data u w e c) (Accessor g' s' e' c') = c"
| "compatible (Accessor g s e c) (Data v w' e' c') = c"

definition defineProperty :: "heap \<Rightarrow> addr \<Rightarrow> string \<Rightarrow> descriptor \<Rightarrow> error + heap" where
  "defineProperty h a n d =
     (if exotic (h ! a) n then Inl OutsideModel
      else case ownDesc (h ! a) n of
        None \<Rightarrow> if extensible (h ! a) then Inr (putOwn h a n d) else Inl TypeError
      | Some cur \<Rightarrow> if compatible cur d then Inr (putOwn h a n d) else Inl TypeError)"


subsection \<open>Enumeration\<close>

text \<open>
  \<^verbatim>\<open>for (name in object)\<close>: the enumerable named properties of the object and of its
  chain, nearest first; a name already met on a nearer object, enumerable there or not,
  is not visited again. The names are fixed when the loop starts.
\<close>

fun forInLevels :: "heap \<Rightarrow> addr list \<Rightarrow> string list \<Rightarrow> string list" where
  "forInLevels h [] seen = []"
| "forInLevels h (a # as) seen =
     filter (\<lambda>n. n \<notin> set seen \<and> (case ownDesc (h ! a) n of Some d \<Rightarrow> isEnumerable d | None \<Rightarrow> False))
       (ownNames (h ! a))
     @ forInLevels h as (seen @ ownNames (h ! a))"

definition forInNames :: "heap \<Rightarrow> addr \<Rightarrow> string list" where
  "forInNames h a = forInLevels h (protoChain h a) []"

text \<open>
  \<^verbatim>\<open>
  export function getPropertyNames(object: {}): string[] {
      let setOfNames: { [index: string]: any } = {};
      let names : string[] = [];
      do {
          const ownNames = Object.getOwnPropertyNames(object);
          for (let i = 0, l = ownNames.length; i < l; i++) {
              const name = ownNames[i];
              if (setOfNames[name] !== true) {
                  setOfNames[name] = true;
                  names.push(name);
              }
          }
          object = Object.getPrototypeOf(object);
      }
      while (object && object !== Object.prototype);
      return names;
  }
  \<close>
  \<open>setOfNames\<close> is an object of the store, read and assigned like any other. The walk
  has as many steps as the store has objects, which an acyclic chain never exceeds.
\<close>

fun namesOfLevel :: "invoke \<Rightarrow> bool \<Rightarrow> addr \<Rightarrow> heap \<Rightarrow> string list \<Rightarrow> string list \<Rightarrow> error + heap \<times> string list" where
  "namesOfLevel iv strict setOfNames h names [] = Inr (h, names)"
| "namesOfLevel iv strict setOfNames h names (name # rest) =
     (case Get iv h setOfNames name of
        Inl x \<Rightarrow> Inl x
      | Inr (h1, v) \<Rightarrow>
          if v \<noteq> Bool True then
            (case Put iv strict h1 setOfNames name (Bool True) of
               Inl x \<Rightarrow> Inl x
             | Inr h2 \<Rightarrow> namesOfLevel iv strict setOfNames h2 (names @ [name]) rest)
          else namesOfLevel iv strict setOfNames h1 names rest)"

fun walkPrototypes :: "nat \<Rightarrow> invoke \<Rightarrow> bool \<Rightarrow> addr \<Rightarrow> heap \<Rightarrow> string list \<Rightarrow> addr \<Rightarrow> error + heap \<times> string list" where
  "walkPrototypes 0 iv strict setOfNames h names object = Inl OutsideModel"
| "walkPrototypes (Suc k) iv strict setOfNames h names object =
     (case namesOfLevel iv strict setOfNames h names (ownNames (h ! object)) of
        Inl x \<Rightarrow> Inl x
      | Inr (h1, names1) \<Rightarrow>
          (case proto (h1 ! object) of
             None \<Rightarrow> Inr (h1, names1)
           | Some p \<Rightarrow>
               if p = ObjectPrototype then Inr (h1, names1)
               else walkPrototypes k iv strict setOfNames h1 names1 p))"

definition getPropertyNames :: "invoke \<Rightarrow> bool \<Rightarrow> heap \<Rightarrow> addr \<Rightarrow> error + heap \<times> string list" where
  "getPropertyNames iv strict h object =
     (case alloc h (newObject (Some ObjectPrototype)) of
        (h1, setOfNames) \<Rightarrow> walkPrototypes (length h1) iv strict setOfNames h1 [] object)"

subsection \<open>copy\<close>

text \<open>
  \<^verbatim>\<open>
  function isObject(item: any): boolean {
      return item && typeof item === 'object' && !Array.isArray(item) && !(item instanceof RegExp);
  }
  \<close>
\<close>

definition isArray :: "heap \<Rightarrow> val \<Rightarrow> bool" where
  "isArray h v = (case v of Ref a \<Rightarrow> kind (h ! a) = ArrayObj | _ \<Rightarrow> False)"

definition instanceofRegExp :: "heap \<Rightarrow> addr \<Rightarrow> bool" where
  "instanceofRegExp h a = (RegExpPrototype \<in> set (tl (protoChain h a)))"

definition isObject :: "heap \<Rightarrow> val \<Rightarrow> bool" where
  "isObject h item =
     (case item of
        Ref a \<Rightarrow> kind (h ! a) \<noteq> FunctionObj \<and> \<not> isArray h item \<and> \<not> instanceofRegExp h a
      | _ \<Rightarrow> False)"

record CopyArgs =
  deep :: bool
  descriptors :: bool
  inherited :: bool
  assignPrototype :: bool
  target :: "addr option"
  sources :: "addr list"

text \<open>
  The recursion of \<^verbatim>\<open>copy\<close> and \<^verbatim>\<open>copyArray\<close> is bounded by the room on the call
  stack: the bodies below take the two functions they call, \<open>rc\<close> for \<^verbatim>\<open>copy\<close> and
  \<open>ra\<close> for \<^verbatim>\<open>copyArray\<close>, and the functions themselves are defined after them.

  The step all three deep branches share: an array goes to \<^verbatim>\<open>copyArray\<close> with the
  caller's \<^verbatim>\<open>kwArgs\<close>, an object to \<^verbatim>\<open>copy\<close> with the nested arguments, anything
  else stays as it is.
\<close>

definition cloneValue ::
  "(heap \<Rightarrow> CopyArgs \<Rightarrow> error + heap \<times> addr) \<Rightarrow> (heap \<Rightarrow> addr \<Rightarrow> CopyArgs \<Rightarrow> error + heap \<times> addr)
   \<Rightarrow> heap \<Rightarrow> CopyArgs \<Rightarrow> (addr \<Rightarrow> CopyArgs) \<Rightarrow> val \<Rightarrow> error + heap \<times> val" where
  "cloneValue rc ra h kwArgs nested v =
     (case v of
        Ref a \<Rightarrow>
          if isArray h v then
            (case ra h a kwArgs of Inl x \<Rightarrow> Inl x | Inr (h1, r) \<Rightarrow> Inr (h1, Ref r))
          else if isObject h v then
            (case rc h (nested a) of Inl x \<Rightarrow> Inl x | Inr (h1, r) \<Rightarrow> Inr (h1, Ref r))
          else Inr (h, v)
      | _ \<Rightarrow> Inr (h, v))"

text \<open>
  \<^verbatim>\<open>
  function copyArray(array: any[], kwArgs: CopyArgs): any[] {
      return array.map(function (item: any): any {
          if (Array.isArray(item)) {
              return copyArray(item, kwArgs);
          }
          return isObject(item) ?
              copy({
                  sources: [ item ],
                  deep: kwArgs.deep,
                  descriptors: kwArgs.descriptors,
                  inherited: kwArgs.inherited,
                  assignPrototype: kwArgs.assignPrototype
              }) :
              item;
      });
  }
  \<close>
  The elements are those the array has when \<^verbatim>\<open>map\<close> starts; the new array enters the
  store when \<^verbatim>\<open>map\<close> returns.
\<close>

definition nestedOfArray :: "CopyArgs \<Rightarrow> addr \<Rightarrow> CopyArgs" where
  "nestedOfArray kwArgs item =
     \<lparr>deep = deep kwArgs, descriptors = descriptors kwArgs, inherited = inherited kwArgs,
      assignPrototype = assignPrototype kwArgs, target = None, sources = [item]\<rparr>"

fun copyItems ::
  "(heap \<Rightarrow> CopyArgs \<Rightarrow> error + heap \<times> addr) \<Rightarrow> (heap \<Rightarrow> addr \<Rightarrow> CopyArgs \<Rightarrow> error + heap \<times> addr)
   \<Rightarrow> heap \<Rightarrow> CopyArgs \<Rightarrow> val list \<Rightarrow> error + heap \<times> val list" where
  "copyItems rc ra h kwArgs [] = Inr (h, [])"
| "copyItems rc ra h kwArgs (item # items) =
     (case cloneValue rc ra h kwArgs (nestedOfArray kwArgs) item of
        Inl x \<Rightarrow> Inl x
      | Inr (h1, v) \<Rightarrow>
          (case copyItems rc ra h1 kwArgs items of
             Inl x \<Rightarrow> Inl x
           | Inr (h2, vs) \<Rightarrow> Inr (h2, v # vs)))"

definition copyArrayBody ::
  "(heap \<Rightarrow> CopyArgs \<Rightarrow> error + heap \<times> addr) \<Rightarrow> (heap \<Rightarrow> addr \<Rightarrow> CopyArgs \<Rightarrow> error + heap \<times> addr)
   \<Rightarrow> heap \<Rightarrow> addr \<Rightarrow> CopyArgs \<Rightarrow> error + heap \<times> addr" where
  "copyArrayBody rc ra h array kwArgs =
     (case copyItems rc ra h kwArgs (elems (h ! array)) of
        Inl x \<Rightarrow> Inl x
      | Inr (h1, vs) \<Rightarrow> Inr (alloc h1 (newArray vs)))"

text \<open>
  The descriptors branch of \<^verbatim>\<open>copy\<close> (lines 53 to 83), for one source:
  \<^verbatim>\<open>
  for (let j = 0; j < names.length; j++) {
      name = names[j];
      const descriptor = (kwArgs.inherited ?
          getPropertyDescriptor : Object.getOwnPropertyDescriptor)(source, name);
      value = descriptor.value;
      if (kwArgs.deep) {
          if (Array.isArray(value)) {
              descriptor.value = copyArray(value, kwArgs);
          }
          else if (isObject(value)) {
              descriptor.value = copy({
                  sources: [ value ], deep: true, descriptors: true,
                  inherited: kwArgs.inherited, assignPrototype: kwArgs.assignPrototype
              });
          }
      }
      Object.defineProperty(target, name, descriptor);
  }
  \<close>
  Reading \<^verbatim>\<open>descriptor.value\<close> of a missing descriptor throws a TypeError. An accessor
  descriptor has no \<^verbatim>\<open>value\<close>.
\<close>

definition nestedOfDescriptor :: "CopyArgs \<Rightarrow> addr \<Rightarrow> CopyArgs" where
  "nestedOfDescriptor kwArgs v =
     \<lparr>deep = True, descriptors = True, inherited = inherited kwArgs,
      assignPrototype = assignPrototype kwArgs, target = None, sources = [v]\<rparr>"

definition deepDescriptor ::
  "(heap \<Rightarrow> CopyArgs \<Rightarrow> error + heap \<times> addr) \<Rightarrow> (heap \<Rightarrow> addr \<Rightarrow> CopyArgs \<Rightarrow> error + heap \<times> addr)
   \<Rightarrow> heap \<Rightarrow> CopyArgs \<Rightarrow> descriptor \<Rightarrow> error + heap \<times> descriptor" where
  "deepDescriptor rc ra h kwArgs d =
     (case d of
        Data v w e c \<Rightarrow>
          (case cloneValue rc ra h kwArgs (nestedOfDescriptor kwArgs) v of
             Inl x \<Rightarrow> Inl x
           | Inr (h1, v1) \<Rightarrow> Inr (h1, Data v1 w e c))
      | Accessor g s e c \<Rightarrow> Inr (h, d))"

fun copyDescriptors ::
  "(heap \<Rightarrow> CopyArgs \<Rightarrow> error + heap \<times> addr) \<Rightarrow> (heap \<Rightarrow> addr \<Rightarrow> CopyArgs \<Rightarrow> error + heap \<times> addr)
   \<Rightarrow> heap \<Rightarrow> CopyArgs \<Rightarrow> addr \<Rightarrow> addr \<Rightarrow> string list \<Rightarrow> error + heap" where
  "copyDescriptors rc ra h kwArgs t source [] = Inr h"
| "copyDescriptors rc ra h kwArgs t source (name # names) =
     (case (if inherited kwArgs then getPropertyDescriptor h source name
            else ownDesc (h ! source) name) of
        None \<Rightarrow> Inl TypeError
      | Some d \<Rightarrow>
          (case (if deep kwArgs then deepDescriptor rc ra h kwArgs d else Inr (h, d)) of
             Inl x \<Rightarrow> Inl x
           | Inr (h1, d1) \<Rightarrow>
               (case defineProperty h1 t name d1 of
                  Inl x \<Rightarrow> Inl x
                | Inr h2 \<Rightarrow> copyDescriptors rc ra h2 kwArgs t source names)))"

text \<open>
  The plain branch (lines 84 to 108), for one source:
  \<^verbatim>\<open>
  for (name in source) {
      if (kwArgs.inherited || hasOwnProperty.call(source, name)) {
          value = source[name];
          if (kwArgs.deep) {
              if (Array.isArray(value)) {
                  value = copyArray(value, kwArgs);
              }
              else if (isObject(value)) {
                  value = copy({
                      sources: [ value ], deep: true,
                      inherited: kwArgs.inherited, assignPrototype: kwArgs.assignPrototype
                  });
              }
          }
          target[name] = value;
      }
  }
  \<close>
\<close>

definition nestedOfValue :: "CopyArgs \<Rightarrow> addr \<Rightarrow> CopyArgs" where
  "nestedOfValue kwArgs v =
     \<lparr>deep = True, descriptors = False, inherited = inherited kwArgs,
      assignPrototype = assignPrototype kwArgs, target = None, sources = [v]\<rparr>"

fun copyEnumerable ::
  "(heap \<Rightarrow> CopyArgs \<Rightarrow> error + heap \<times> addr) \<Rightarrow> (heap \<Rightarrow> addr \<Rightarrow> CopyArgs \<Rightarrow> error + heap \<times> addr)
   \<Rightarrow> invoke \<Rightarrow> bool \<Rightarrow> heap \<Rightarrow> CopyArgs \<Rightarrow> addr \<Rightarrow> addr \<Rightarrow> string list \<Rightarrow> error + heap" where
  "copyEnumerable rc ra iv strict h kwArgs t source [] = Inr h"
| "copyEnumerable rc ra iv strict h kwArgs t source (name # names) =
     (if inherited kwArgs \<or> ownDesc (h ! source) name \<noteq> None then
        (case Get iv h source name of
           Inl x \<Rightarrow> Inl x
         | Inr (h1, v) \<Rightarrow>
             (case (if deep kwArgs then cloneValue rc ra h1 kwArgs (nestedOfValue kwArgs) v
                    else Inr (h1, v)) of
                Inl x \<Rightarrow> Inl x
              | Inr (h2, v2) \<Rightarrow>
                  (case Put iv strict h2 t name v2 of
                     Inl x \<Rightarrow> Inl x
                   | Inr h3 \<Rightarrow> copyEnumerable rc ra iv strict h3 kwArgs t source names)))
      else copyEnumerable rc ra iv strict h kwArgs t source names)"

text \<open>One source (the body of the loop of line 47).\<close>

definition copySource ::
  "(heap \<Rightarrow> CopyArgs \<Rightarrow> error + heap \<times> addr) \<Rightarrow> (heap \<Rightarrow> addr \<Rightarrow> CopyArgs \<Rightarrow> error + heap \<times> addr)
   \<Rightarrow> invoke \<Rightarrow> bool \<Rightarrow> heap \<Rightarrow> CopyArgs \<Rightarrow> addr \<Rightarrow> addr \<Rightarrow> error + heap" where
  "copySource rc ra iv strict h kwArgs t source =
     (if descriptors kwArgs then
        (case (if inherited kwArgs then getPropertyNames iv strict h source
               else Inr (h, ownNames (h ! source))) of
           Inl x \<Rightarrow> Inl x
         | Inr (h1, names) \<Rightarrow> copyDescriptors rc ra h1 kwArgs t source names)
      else copyEnumerable rc ra iv strict h kwArgs t source (forInNames h source))"

fun copySources ::
  "(heap \<Rightarrow> CopyArgs \<Rightarrow> error + heap \<times> addr) \<Rightarrow> (heap \<Rightarrow> addr \<Rightarrow> CopyArgs \<Rightarrow> error + heap \<times> addr)
   \<Rightarrow> invoke \<Rightarrow> bool \<Rightarrow> heap \<Rightarrow> CopyArgs \<Rightarrow> addr \<Rightarrow> addr list \<Rightarrow> error + heap" where
  "copySources rc ra iv strict h kwArgs t [] = Inr h"
| "copySources rc ra iv strict h kwArgs t (source # rest) =
     (case copySource rc ra iv strict h kwArgs t source of
        Inl x \<Rightarrow> Inl x
      | Inr h1 \<Rightarrow> copySources rc ra iv strict h1 kwArgs t rest)"

text \<open>
  \<^verbatim>\<open>
  export function copy(kwArgs: CopyArgs): any {
      let target: any;
      let sources: any[] = kwArgs.sources;
      if (!sources.length) {
          throw new RangeError('lang.copy requires at least one source object.');
      }
      if (kwArgs.assignPrototype) {
          target = Object.create(Object.getPrototypeOf(sources[0]));
      }
      else {
          target = kwArgs.target || {};
      }
      for (let i = 0; i < sources.length; i++) { ... }
      return target;
  }
  \<close>
\<close>

text \<open>The target (lines 38 to 45): a new object, or the one given.\<close>

definition newTarget :: "heap \<Rightarrow> CopyArgs \<Rightarrow> heap \<times> addr" where
  "newTarget h kwArgs =
     (if assignPrototype kwArgs then alloc h (newObject (proto (h ! hd (sources kwArgs))))
      else (case target kwArgs of
              Some t \<Rightarrow> (h, t)
            | None \<Rightarrow> alloc h (newObject (Some ObjectPrototype))))"

definition copyBody ::
  "(heap \<Rightarrow> CopyArgs \<Rightarrow> error + heap \<times> addr) \<Rightarrow> (heap \<Rightarrow> addr \<Rightarrow> CopyArgs \<Rightarrow> error + heap \<times> addr)
   \<Rightarrow> invoke \<Rightarrow> bool \<Rightarrow> heap \<Rightarrow> CopyArgs \<Rightarrow> error + heap \<times> addr" where
  "copyBody rc ra iv strict h kwArgs =
     (if sources kwArgs = [] then Inl (RangeError ''lang.copy requires at least one source object.'')
      else
        (case newTarget h kwArgs of
           (h1, t) \<Rightarrow>
             (case copySources rc ra iv strict h1 kwArgs t (sources kwArgs) of
                Inl x \<Rightarrow> Inl x
              | Inr h2 \<Rightarrow> Inr (h2, t))))"

text \<open>
  \<open>copy k\<close> and \<open>copyArray k\<close> run with room for \<open>k\<close> nested calls of the two on the
  stack, the call itself counted; with no room left the engine gives up.
\<close>

fun copy :: "nat \<Rightarrow> invoke \<Rightarrow> bool \<Rightarrow> heap \<Rightarrow> CopyArgs \<Rightarrow> error + heap \<times> addr"
  and copyArray :: "nat \<Rightarrow> invoke \<Rightarrow> bool \<Rightarrow> heap \<Rightarrow> addr \<Rightarrow> CopyArgs \<Rightarrow> error + heap \<times> addr" where
  "copy 0 iv strict h kwArgs = Inl StackExhausted"
| "copy (Suc k) iv strict h kwArgs =
     copyBody (\<lambda>h' kw'. copy k iv strict h' kw') (\<lambda>h' a' kw'. copyArray k iv strict h' a' kw')
       iv strict h kwArgs"
| "copyArray 0 iv strict h array kwArgs = Inl StackExhausted"
| "copyArray (Suc k) iv strict h array kwArgs =
     copyArrayBody (\<lambda>h' kw'. copy k iv strict h' kw') (\<lambda>h' a' kw'. copyArray k iv strict h' a' kw')
       h array kwArgs"

text \<open>
  \<^verbatim>\<open>
  export function create(prototype: {}, ...mixins: {}[]): {} {
      if (!mixins.length) {
          throw new RangeError('lang.create requires at least one mixin object.');
      }
      return copy({
          assignPrototype: false, deep: false, descriptors: false, inherited: false,
          target: Object.create(prototype), sources: mixins
      });
  }
  \<close>
\<close>

definition create :: "nat \<Rightarrow> invoke \<Rightarrow> bool \<Rightarrow> heap \<Rightarrow> addr \<Rightarrow> addr list \<Rightarrow> error + heap \<times> addr" where
  "create k iv strict h prototype mixins =
     (if mixins = [] then Inl (RangeError ''lang.create requires at least one mixin object.'')
      else
        (case alloc h (newObject (Some prototype)) of
           (h1, t) \<Rightarrow>
             copy k iv strict h1
               \<lparr>deep = False, descriptors = False, inherited = False, assignPrototype = False,
                target = Some t, sources = mixins\<rparr>))"

text \<open>
  \<^verbatim>\<open>
  export function duplicate(source: {}): {} {
      return copy({ assignPrototype: true, deep: true, descriptors: true, sources: [ source ] });
  }
  \<close>
  A field that is left out is \<^verbatim>\<open>undefined\<close>: falsy for a flag, no target.
\<close>

definition duplicate :: "nat \<Rightarrow> invoke \<Rightarrow> bool \<Rightarrow> heap \<Rightarrow> addr \<Rightarrow> error + heap \<times> addr" where
  "duplicate k iv strict h source =
     copy k iv strict h
       \<lparr>deep = True, descriptors = True, inherited = False, assignPrototype = True,
        target = None, sources = [source]\<rparr>"

section \<open>Notions the theorems use\<close>

text \<open>Accessor calls that leave the store as it is.\<close>

definition pureCalls :: "invoke \<Rightarrow> bool" where
  "pureCalls iv = (\<forall>h f this args h' v. iv h f this args = Inr (h', v) \<longrightarrow> h' = h)"

text \<open>\<open>extends h h'\<close>: the store \<open>h'\<close> is \<open>h\<close> with new objects after it.\<close>

definition extends :: "heap \<Rightarrow> heap \<Rightarrow> bool" where
  "extends h h' = (length h \<le> length h' \<and> take (length h) h' = h)"

text \<open>Two states of an object that differ at most in its named properties.\<close>

definition sameShell :: "obj \<Rightarrow> obj \<Rightarrow> bool" where
  "sameShell ob ob' =
     (proto ob' = proto ob \<and> kind ob' = kind ob \<and> elems ob' = elems ob \<and> extensible ob' = extensible ob)"

text \<open>
  \<open>changesOnly t h h'\<close>: from \<open>h\<close> to \<open>h'\<close> objects were added, the named properties of
  the object at \<open>t\<close> may have changed, and every other object of \<open>h\<close> is as it was.
\<close>

definition changesOnly :: "addr \<Rightarrow> heap \<Rightarrow> heap \<Rightarrow> bool" where
  "changesOnly t h h' =
     (length h \<le> length h' \<and>
      list_all (\<lambda>a. if a = t then sameShell (h ! a) (h' ! a) else h' ! a = h ! a) [0..<length h])"

text \<open>
  What the bodies of \<^verbatim>\<open>copy\<close> and \<^verbatim>\<open>copyArray\<close> need of the functions they call:
  a call without a target adds objects to the store and returns one of them.
\<close>

definition allocatesC :: "(heap \<Rightarrow> CopyArgs \<Rightarrow> error + heap \<times> addr) \<Rightarrow> bool" where
  "allocatesC rc = (\<forall>h kw h' r. target kw = None \<longrightarrow> rc h kw = Inr (h', r) \<longrightarrow>
      extends h h' \<and> length h \<le> r \<and> r < length h')"

definition allocatesA :: "(heap \<Rightarrow> addr \<Rightarrow> CopyArgs \<Rightarrow> error + heap \<times> addr) \<Rightarrow> bool" where
  "allocatesA ra = (\<forall>h a kw h' r. ra h a kw = Inr (h', r) \<longrightarrow>
      extends h h' \<and> length h \<le> r \<and> r < length h')"

section \<open>Example stores\<close>

text \<open>
  A realm whose three prototypes hold no properties, and an engine with nothing to call
  (calling what is not a function throws).
\<close>

definition bareRealm :: heap where
  "bareRealm = [newObject None, newObject (Some ObjectPrototype), newObject (Some ObjectPrototype)]"

definition noCalls :: invoke where
  "noCalls h f this args = Inl Undefined"

definition plain :: "(string \<times> val) list \<Rightarrow> obj" where
  "plain ps = \<lparr>proto = Some ObjectPrototype, kind = Ordinary, elems = [],
              props = map (\<lambda>(n, v). (n, Data v True True True)) ps, extensible = True\<rparr>"

text \<open>
  \<^verbatim>\<open>var t = {}; var s = { inner: t, x: 1 }; copy({ target: t, sources: [ s ] })\<close>:
  \<open>s\<close> is at 3, \<open>t\<close> at 4.
\<close>

definition innerTargetStore :: heap where
  "innerTargetStore = bareRealm @ [plain [(''inner'', Ref 4), (''x'', Num 1)], plain []]"

definition innerTargetArgs :: CopyArgs where
  "innerTargetArgs = \<lparr>deep = False, descriptors = False, inherited = False, assignPrototype = False,
     target = Some 4, sources = [3]\<rparr>"

section \<open>Well-formed stores\<close>

text \<open>
  What every store an engine builds satisfies: references and prototype links point to
  objects of the store, the own property names of an object are distinct, only arrays
  have elements, \<^verbatim>\<open>Object.prototype\<close> has a null prototype, and prototype chains end.
\<close>

definition okVal :: "nat \<Rightarrow> val \<Rightarrow> bool" where
  "okVal n v = (case v of Ref a \<Rightarrow> a < n | _ \<Rightarrow> True)"

fun okDesc :: "nat \<Rightarrow> descriptor \<Rightarrow> bool" where
  "okDesc n (Data v w e c) = okVal n v"
| "okDesc n (Accessor g s e c) = (okVal n g \<and> okVal n s)"

definition okObj :: "nat \<Rightarrow> obj \<Rightarrow> bool" where
  "okObj n ob =
     ((case proto ob of None \<Rightarrow> True | Some p \<Rightarrow> p < n) \<and>
      list_all (okVal n) (elems ob) \<and>
      list_all (\<lambda>(m, d). okDesc n d) (props ob) \<and>
      distinct (ownNames ob) \<and>
      (kind ob = ArrayObj \<or> elems ob = []))"

definition wellFormed :: "heap \<Rightarrow> bool" where
  "wellFormed h =
     (RegExpPrototype < length h \<and> proto (h ! ObjectPrototype) = None \<and>
      list_all (okObj (length h)) h \<and>
      list_all (\<lambda>a. chainFrom (length h) h a \<noteq> None) [0..<length h])"

text \<open>The values of the own data properties of an object, in the order of its names.\<close>

definition ownValues :: "obj \<Rightarrow> val list" where
  "ownValues ob =
     concat (map (\<lambda>n. case ownDesc ob n of Some (Data v w e c) \<Rightarrow> [v] | _ \<Rightarrow> []) (ownNames ob))"

text \<open>
  \<open>cloneable k h v\<close>: the arrays and objects nested in \<open>v\<close> through elements and own data
  properties are at most \<open>k\<close> deep, so that \<open>k\<close> nested calls clone \<open>v\<close>. No \<open>k\<close> does for a
  value that contains itself.
\<close>

fun cloneable :: "nat \<Rightarrow> heap \<Rightarrow> val \<Rightarrow> bool" where
  "cloneable 0 h v = (\<not> isArray h v \<and> \<not> isObject h v)"
| "cloneable (Suc k) h v =
     (case v of
        Ref a \<Rightarrow>
          if isArray h v then list_all (cloneable k h) (elems (h ! a))
          else if isObject h v then list_all (cloneable k h) (ownValues (h ! a))
          else True
      | _ \<Rightarrow> True)"

text \<open>\<^verbatim>\<open>var o = {}; o.self = o;\<close> with \<open>o\<close> at 3.\<close>

definition selfStore :: heap where
  "selfStore = bareRealm @ [plain [(''self'', Ref 3)]]"

text \<open>
  What a descriptor \<open>d\<close> of a source becomes on the target in the descriptors branch: an
  accessor stays itself; a data descriptor keeps its attributes, and its value too,
  unless the copy is deep and the value is an array or an object, which a new object
  replaces.
\<close>

fun transferred :: "bool \<Rightarrow> heap \<Rightarrow> descriptor \<Rightarrow> descriptor \<Rightarrow> bool" where
  "transferred dp h (Accessor g s e c) d' = (d' = Accessor g s e c)"
| "transferred dp h (Data v w e c) d' =
     (if dp \<and> (isArray h v \<or> isObject h v)
      then (case d' of Data (Ref r) w' e' c' \<Rightarrow> length h \<le> r \<and> w' = w \<and> e' = e \<and> c' = c | _ \<Rightarrow> False)
      else d' = Data v w e c)"

text \<open>The prototype links of the objects of \<open>h\<close> are the same in \<open>h'\<close>.\<close>

definition sameProtos :: "heap \<Rightarrow> heap \<Rightarrow> bool" where
  "sameProtos h h' = (length h \<le> length h' \<and> (\<forall>a < length h. proto (h' ! a) = proto (h ! a)))"

text \<open>Of the functions a body calls: a call with a source never raises a RangeError.\<close>

definition noRangeC :: "(heap \<Rightarrow> CopyArgs \<Rightarrow> error + heap \<times> addr) \<Rightarrow> bool" where
  "noRangeC rc = (\<forall>h kw m. sources kw \<noteq> [] \<longrightarrow> rc h kw \<noteq> Inl (RangeError m))"

definition noRangeA :: "(heap \<Rightarrow> addr \<Rightarrow> CopyArgs \<Rightarrow> error + heap \<times> addr) \<Rightarrow> bool" where
  "noRangeA ra = (\<forall>h a kw m. ra h a kw \<noteq> Inl (RangeError m))"

text \<open>
  \<^verbatim>\<open>var o = { a: 1 }; Object.defineProperty(o, 'b', { get: f });
  Object.defineProperty(o, 'hidden', { value: 4 }); Object.defineProperty(o, 'nested', { value: { a: 5 } })\<close>:
  the getter \<open>f\<close> at 3, the nested object at 4, \<open>o\<close> at 5.
\<close>

definition describedStore :: heap where
  "describedStore = bareRealm @
     [\<lparr>proto = Some ObjectPrototype, kind = FunctionObj, elems = [], props = [], extensible = True\<rparr>,
      plain [(''a'', Num 5)],
      \<lparr>proto = Some ObjectPrototype, kind = Ordinary, elems = [],
        props = [(''a'', Data (Num 1) True True True),
                 (''b'', Accessor (Ref 3) Undefined False False),
                 (''hidden'', Data (Num 4) False False False),
                 (''nested'', Data (Ref 4) False False False)],
        extensible = True\<rparr>]"

definition describedArgs :: CopyArgs where
  "describedArgs = \<lparr>deep = True, descriptors = True, inherited = False, assignPrototype = False,
     target = None, sources = [5]\<rparr>"

text \<open>The flags \<^verbatim>\<open>duplicate\<close> passes, which every nested call of it passes on.\<close>

definition dupFlags :: "CopyArgs \<Rightarrow> bool" where
  "dupFlags kw = (deep kw \<and> descriptors kw \<and> \<not> inherited kw \<and> assignPrototype kw)"

text \<open>A result that is a value, or the failure of the exhausted stack.\<close>

definition onlyStack :: "error + 'a \<Rightarrow> bool" where
  "onlyStack r = (case r of Inl e \<Rightarrow> e = StackExhausted | Inr x \<Rightarrow> True)"

text \<open>
  What the bodies need of the functions they call to duplicate the objects of a store
  \<open>h0\<close>, in a store that extends it: they fail only for lack of stack, and they return
  for an object or array that \<open>j\<close> nested calls can clone.
\<close>

definition clonesC :: "heap \<Rightarrow> nat \<Rightarrow> (heap \<Rightarrow> CopyArgs \<Rightarrow> error + heap \<times> addr) \<Rightarrow> bool" where
  "clonesC h0 j rc = (\<forall>h kw a. extends h0 h \<longrightarrow> dupFlags kw \<longrightarrow> target kw = None \<longrightarrow> sources kw = [a] \<longrightarrow>
      a < length h0 \<longrightarrow> isObject h0 (Ref a) \<longrightarrow>
      onlyStack (rc h kw) \<and> (cloneable j h0 (Ref a) \<longrightarrow> (\<exists>x. rc h kw = Inr x)))"

definition clonesA :: "heap \<Rightarrow> nat \<Rightarrow> (heap \<Rightarrow> addr \<Rightarrow> CopyArgs \<Rightarrow> error + heap \<times> addr) \<Rightarrow> bool" where
  "clonesA h0 j ra = (\<forall>h kw a. extends h0 h \<longrightarrow> dupFlags kw \<longrightarrow> a < length h0 \<longrightarrow> isArray h0 (Ref a) \<longrightarrow>
      onlyStack (ra h a kw) \<and> (cloneable j h0 (Ref a) \<longrightarrow> (\<exists>x. ra h a kw = Inr x)))"

text \<open>Two pairs of called functions that agree on the calls of the own-descriptors mode.\<close>

definition agreeC :: "(heap \<Rightarrow> CopyArgs \<Rightarrow> error + heap \<times> addr) \<Rightarrow> (heap \<Rightarrow> CopyArgs \<Rightarrow> error + heap \<times> addr) \<Rightarrow> bool" where
  "agreeC rc rc' = (\<forall>h kw. descriptors kw \<longrightarrow> \<not> inherited kw \<longrightarrow> rc h kw = rc' h kw)"

definition agreeA :: "(heap \<Rightarrow> addr \<Rightarrow> CopyArgs \<Rightarrow> error + heap \<times> addr) \<Rightarrow> (heap \<Rightarrow> addr \<Rightarrow> CopyArgs \<Rightarrow> error + heap \<times> addr) \<Rightarrow> bool" where
  "agreeA ra ra' = (\<forall>h a kw. descriptors kw \<longrightarrow> \<not> inherited kw \<longrightarrow> ra h a kw = ra' h a kw)"

section \<open>What getPropertyNames is meant to return\<close>

text \<open>The list without the elements of \<open>seen\<close> and without repetitions, each element where it is first.\<close>

fun firstSeen :: "'a list \<Rightarrow> 'a list \<Rightarrow> 'a list" where
  "firstSeen seen [] = []"
| "firstSeen seen (x # xs) = (if x \<in> set seen then firstSeen seen xs else x # firstSeen (seen @ [x]) xs)"

text \<open>
  The objects \<^verbatim>\<open>getPropertyNames\<close> visits, given the chain of its argument: the argument
  itself, then its prototypes as far as, and without, \<^verbatim>\<open>Object.prototype\<close>.
\<close>

definition walked :: "addr list \<Rightarrow> addr list" where
  "walked c = (case c of [] \<Rightarrow> [] | a # rest \<Rightarrow> a # takeWhile (\<lambda>p. p \<noteq> ObjectPrototype) rest)"

definition walkedNames :: "heap \<Rightarrow> addr \<Rightarrow> string list" where
  "walkedNames h ob = concat (map (\<lambda>l. ownNames (h ! l)) (walked (protoChain h ob)))"

text \<open>
  A name that an object literal can hold as a flag: \<^verbatim>\<open>Object.prototype\<close> has no accessor
  and no read-only property of that name, and not the value \<^verbatim>\<open>true\<close> there.
\<close>

definition rootFree :: "heap \<Rightarrow> string \<Rightarrow> bool" where
  "rootFree h n =
     (case ownDesc (h ! ObjectPrototype) n of
        None \<Rightarrow> True
      | Some (Data v w e c) \<Rightarrow> w \<and> v \<noteq> Bool True
      | Some (Accessor g s e c) \<Rightarrow> False)"

text \<open>The object \<^verbatim>\<open>setOfNames\<close> once the names of the list are flagged.\<close>

definition nameSet :: "string list \<Rightarrow> obj" where
  "nameSet names = \<lparr>proto = Some ObjectPrototype, kind = Ordinary, elems = [],
     props = map (\<lambda>n. (n, Data (Bool True) True True True)) names, extensible = True\<rparr>"

text \<open>
  A realm whose \<^verbatim>\<open>Object.prototype\<close> has the accessor \<^verbatim>\<open>__proto__\<close> (ECMAScript B.2.2.1),
  its getter at 3 and its setter at 4: the getter returns the prototype of the receiver;
  the setter sets it when given an object or \<^verbatim>\<open>null\<close> and does nothing when given
  anything else.
\<close>

definition protoRealm :: heap where
  "protoRealm =
     [\<lparr>proto = None, kind = Ordinary, elems = [],
        props = [(''__proto__'', Accessor (Ref 3) (Ref 4) False True)], extensible = True\<rparr>,
      newObject (Some ObjectPrototype), newObject (Some ObjectPrototype),
      \<lparr>proto = Some ObjectPrototype, kind = FunctionObj, elems = [], props = [], extensible = True\<rparr>,
      \<lparr>proto = Some ObjectPrototype, kind = FunctionObj, elems = [], props = [], extensible = True\<rparr>]"

definition protoCalls :: invoke where
  "protoCalls h f this args =
     (if f = Ref 3 then
        (case this of
           Ref a \<Rightarrow> Inr (h, case proto (h ! a) of None \<Rightarrow> Null | Some p \<Rightarrow> Ref p)
         | _ \<Rightarrow> Inl Undefined)
      else if f = Ref 4 then
        (case (this, args) of
           (Ref a, [Ref p]) \<Rightarrow> Inr (h[a := (h ! a)\<lparr>proto := Some p\<rparr>], Undefined)
         | (Ref a, [Null]) \<Rightarrow> Inr (h[a := (h ! a)\<lparr>proto := None\<rparr>], Undefined)
         | _ \<Rightarrow> Inr (h, Undefined))
      else Inl Undefined)"

text \<open>
  \<^verbatim>\<open>var o1 = JSON.parse('{"__proto__": 1}'); var o2 = Object.create(o1);
  Object.defineProperty(o2, '__proto__', { value: 2, writable: true, enumerable: true, configurable: true })\<close>:
  \<open>o1\<close> at 5, \<open>o2\<close> at 6.
\<close>

definition protoKeyStore :: heap where
  "protoKeyStore = protoRealm @
     [plain [(''__proto__'', Num 1)],
      \<lparr>proto = Some 5, kind = Ordinary, elems = [],
        props = [(''__proto__'', Data (Num 2) True True True)], extensible = True\<rparr>]"

section \<open>What copy leaves on its target\<close>

text \<open>
  An assignment \<^verbatim>\<open>target[name] = value\<close> takes effect: the name is no index or length of
  an array, what the chain of the target holds under the name is no accessor and not
  read-only, and the target can take a new property if it does not have this one.
\<close>

definition assignable :: "heap \<Rightarrow> addr \<Rightarrow> string \<Rightarrow> bool" where
  "assignable h t n =
     (\<not> exotic (h ! t) n \<and>
      (case findDesc h (protoChain h t) n of
         None \<Rightarrow> extensible (h ! t)
       | Some (Data u w e c) \<Rightarrow> w \<and> (ownDesc (h ! t) n \<noteq> None \<or> extensible (h ! t))
       | Some (Accessor g s e c) \<Rightarrow> False))"

text \<open>
  What the value \<open>v\<close> of a source becomes: itself, or, when the copy is deep and \<open>v\<close> is
  an array or an object, a reference to an object the store \<open>h\<close> did not have.
\<close>

definition valueCarried :: "bool \<Rightarrow> heap \<Rightarrow> val \<Rightarrow> val \<Rightarrow> bool" where
  "valueCarried dp h v v' =
     (if dp \<and> (isArray h v \<or> isObject h v) then (case v' of Ref r \<Rightarrow> length h \<le> r | _ \<Rightarrow> False)
      else v' = v)"

text \<open>
  The names \<^verbatim>\<open>copy\<close> takes from a source: without \<^verbatim>\<open>descriptors\<close> the names the
  \<^verbatim>\<open>for-in\<close> loop meets, the inherited ones only with \<^verbatim>\<open>inherited\<close>; with \<^verbatim>\<open>descriptors\<close>
  all own names, or with \<^verbatim>\<open>inherited\<close> the names of the chain below \<^verbatim>\<open>Object.prototype\<close>.
\<close>

definition selected :: "CopyArgs \<Rightarrow> heap \<Rightarrow> addr \<Rightarrow> string list" where
  "selected kw h s =
     (if descriptors kw then (if inherited kw then firstSeen [] (walkedNames h s) else ownNames (h ! s))
      else filter (\<lambda>n. inherited kw \<or> ownDesc (h ! s) n \<noteq> None) (forInNames h s))"

text \<open>
  What the target holds under a name after the copy, given the descriptor \<open>d\<close> the source
  has there: with \<^verbatim>\<open>descriptors\<close> that descriptor, transferred; without, a data
  property, with the value of \<open>d\<close> carried over when \<open>d\<close> is a data descriptor (the value
  a getter returns is not described).
\<close>

definition carried :: "CopyArgs \<Rightarrow> heap \<Rightarrow> descriptor \<Rightarrow> descriptor \<Rightarrow> bool" where
  "carried kw h d d' =
     (if descriptors kw then transferred (deep kw) h d d'
      else (case d' of
              Data v' w' e' c' \<Rightarrow> (case d of Data v w e c \<Rightarrow> valueCarried (deep kw) h v v' | _ \<Rightarrow> True)
            | Accessor g s e c \<Rightarrow> False))"

text \<open>
  The source whose property stands under a name in the end: the last of the sources that
  the name is taken from.
\<close>

definition winner :: "CopyArgs \<Rightarrow> heap \<Rightarrow> addr list \<Rightarrow> string \<Rightarrow> addr option" where
  "winner kw h ss n =
     (case filter (\<lambda>s. n \<in> set (selected kw h s)) ss of [] \<Rightarrow> None | x # xs \<Rightarrow> Some (last (x # xs)))"

text \<open>
  \<^verbatim>\<open>var t = Object.freeze({ a: 0 }); var s = { a: 1 }; copy({ target: t, sources: [ s ] })\<close>:
  \<open>t\<close> is at 3, \<open>s\<close> at 4.
\<close>

definition frozenStore :: heap where
  "frozenStore = bareRealm @
     [\<lparr>proto = Some ObjectPrototype, kind = Ordinary, elems = [],
        props = [(''a'', Data (Num 0) False True False)], extensible = False\<rparr>,
      plain [(''a'', Num 1)]]"

definition frozenArgs :: CopyArgs where
  "frozenArgs = \<lparr>deep = False, descriptors = False, inherited = False, assignPrototype = False,
     target = Some 3, sources = [4]\<rparr>"

text \<open>
  \<^verbatim>\<open>var t = { b: 0, c: 9 }; copy({ target: t, sources: [ { a: 1, b: 2 }, { b: 3 } ] })\<close>:
  the sources are at 3 and 4, \<open>t\<close> at 5.
\<close>

definition layeredStore :: heap where
  "layeredStore = bareRealm @
     [plain [(''a'', Num 1), (''b'', Num 2)], plain [(''b'', Num 3)], plain [(''b'', Num 0), (''c'', Num 9)]]"

definition layeredArgs :: CopyArgs where
  "layeredArgs = \<lparr>deep = False, descriptors = False, inherited = False, assignPrototype = False,
     target = Some 5, sources = [3, 4]\<rparr>"

text \<open>
  \<^verbatim>\<open>var s = { when: new Date() }; copy({ deep: true, sources: [ s ] })\<close>:
  \<^verbatim>\<open>Date.prototype\<close> is at 3, the date at 4, \<open>s\<close> at 5. A date is an object that is no
  array, no function and no instance of \<^verbatim>\<open>RegExp\<close>; it has no enumerable property.
\<close>

definition dateStore :: heap where
  "dateStore = bareRealm @
     [plain [],
      \<lparr>proto = Some 3, kind = Ordinary, elems = [], props = [], extensible = True\<rparr>,
      plain [(''when'', Ref 4)]]"

definition dateArgs :: CopyArgs where
  "dateArgs = \<lparr>deep = True, descriptors = False, inherited = False, assignPrototype = False,
     target = None, sources = [5]\<rparr>"

section \<open>What a deep copy builds\<close>

text \<open>
  A property of a copy against the property \<open>d\<close> of the source, given what relates the
  values: a data property yields a data property with a related value (and, with
  \<^verbatim>\<open>descriptors\<close>, the same attributes); an accessor yields itself with \<^verbatim>\<open>descriptors\<close>,
  and without a data property (that holds what the getter returned).
\<close>

definition descMirrors :: "(val \<Rightarrow> val \<Rightarrow> bool) \<Rightarrow> bool \<Rightarrow> descriptor \<Rightarrow> descriptor \<Rightarrow> bool" where
  "descMirrors R ds d d' =
     (case d of
        Data u w e c \<Rightarrow>
          (case d' of
             Data u' w' e' c' \<Rightarrow> R u u' \<and> (ds \<longrightarrow> w' = w \<and> e' = e \<and> c' = c)
           | Accessor g' s' e' c' \<Rightarrow> False)
      | Accessor g s e c \<Rightarrow>
          (if ds then d' = d else (case d' of Data u' w' e' c' \<Rightarrow> True | Accessor g' s' e' c' \<Rightarrow> False)))"

text \<open>
  The object at \<open>a'\<close> of \<open>h'\<close> is a copy of the object at \<open>a\<close> of \<open>h\<close>: it is a new object
  (not below \<open>lo\<close>), ordinary, with the prototype \<^verbatim>\<open>copy\<close> gives its target; it has a
  property for each name taken from \<open>a\<close>, as \<open>descMirrors\<close> says, and no other property.
\<close>

definition objMirrors ::
  "(val \<Rightarrow> val \<Rightarrow> bool) \<Rightarrow> CopyArgs \<Rightarrow> heap \<Rightarrow> nat \<Rightarrow> addr \<Rightarrow> heap \<Rightarrow> addr \<Rightarrow> bool" where
  "objMirrors R kw h lo a h' a' =
     (lo \<le> a' \<and> a' < length h' \<and> kind (h' ! a') = Ordinary \<and>
      proto (h' ! a') = (if assignPrototype kw then proto (h ! a) else Some ObjectPrototype) \<and>
      list_all (\<lambda>n. case getPropertyDescriptor h a n of
                       None \<Rightarrow> False
                     | Some d \<Rightarrow> (case ownDesc (h' ! a') n of None \<Rightarrow> False
                                  | Some d' \<Rightarrow> descMirrors R (descriptors kw) d d'))
        (selected kw h a) \<and>
      list_all (\<lambda>n. n \<in> set (selected kw h a)) (ownNames (h' ! a')))"

text \<open>
  \<open>mirrors k kw h lo h' v v'\<close>: the value \<open>v'\<close> of the store \<open>h'\<close> is a deep copy of the
  value \<open>v\<close> of the store \<open>h\<close>, whose arrays and objects nest at most \<open>k\<close> deep. An array
  yields a new array of the same length, element by element a deep copy; an object (for
  \<^verbatim>\<open>isObject\<close>) yields a new object, property by property a deep copy; every other value
  yields itself.
\<close>

fun mirrors :: "nat \<Rightarrow> CopyArgs \<Rightarrow> heap \<Rightarrow> nat \<Rightarrow> heap \<Rightarrow> val \<Rightarrow> val \<Rightarrow> bool" where
  "mirrors 0 kw h lo h' v v' = (\<not> isArray h v \<and> \<not> isObject h v \<and> v' = v)"
| "mirrors (Suc k) kw h lo h' v v' =
     (if isArray h v then
        (case v of
           Ref a \<Rightarrow>
             (case v' of
                Ref a' \<Rightarrow> lo \<le> a' \<and> a' < length h' \<and> kind (h' ! a') = ArrayObj \<and>
                   list_all2 (mirrors k kw h lo h') (elems (h ! a)) (elems (h' ! a'))
              | _ \<Rightarrow> False)
         | _ \<Rightarrow> False)
      else if isObject h v then
        (case v of
           Ref a \<Rightarrow>
             (case v' of
                Ref a' \<Rightarrow> objMirrors (mirrors k kw h lo h') kw h lo a h' a'
              | _ \<Rightarrow> False)
         | _ \<Rightarrow> False)
      else v' = v)"

text \<open>
  A new object with the prototype \<open>p\<close> takes an assignment under the name: the chain of
  \<open>p\<close> has no read-only property and no accessor of that name.
\<close>

definition takes :: "heap \<Rightarrow> addr option \<Rightarrow> string \<Rightarrow> bool" where
  "takes h p n =
     (case (case p of None \<Rightarrow> None | Some q \<Rightarrow> findDesc h (protoChain h q) n) of
        None \<Rightarrow> True
      | Some (Data u w e c) \<Rightarrow> w
      | Some (Accessor g s e c) \<Rightarrow> False)"

text \<open>
  What the copy of the object at \<open>a\<close> needs for its properties to arrive: without
  \<^verbatim>\<open>descriptors\<close> the new target takes the assignments, with \<^verbatim>\<open>descriptors\<close> and
  \<^verbatim>\<open>inherited\<close> the names are free on \<^verbatim>\<open>Object.prototype\<close>; and the values of its data
  properties satisfy \<open>F\<close>.
\<close>

definition objFits :: "(val \<Rightarrow> bool) \<Rightarrow> CopyArgs \<Rightarrow> heap \<Rightarrow> addr \<Rightarrow> bool" where
  "objFits F kw h a =
     ((descriptors kw \<or>
         list_all (takes h (if assignPrototype kw then proto (h ! a) else Some ObjectPrototype))
           (selected kw h a)) \<and>
      (\<not> descriptors kw \<or> \<not> inherited kw \<or> list_all (rootFree h) (walkedNames h a)) \<and>
      list_all (\<lambda>n. case getPropertyDescriptor h a n of Some (Data u w e c) \<Rightarrow> F u | _ \<Rightarrow> True)
        (selected kw h a))"

text \<open>The same, \<open>k\<close> levels down the arrays and objects nested in a value.\<close>

fun fits :: "nat \<Rightarrow> CopyArgs \<Rightarrow> heap \<Rightarrow> val \<Rightarrow> bool" where
  "fits 0 kw h v = True"
| "fits (Suc k) kw h v =
     (case v of
        Ref a \<Rightarrow>
          if isArray h v then list_all (fits k kw h) (elems (h ! a))
          else if isObject h v then objFits (fits k kw h) kw h a
          else True
      | _ \<Rightarrow> True)"

text \<open>Two argument records with the same four flags.\<close>

definition sameFlags :: "CopyArgs \<Rightarrow> CopyArgs \<Rightarrow> bool" where
  "sameFlags kw kw0 =
     (deep kw = deep kw0 \<and> descriptors kw = descriptors kw0 \<and> inherited kw = inherited kw0 \<and>
      assignPrototype kw = assignPrototype kw0)"

text \<open>
  Of the functions a body calls: what a call with a new target, or a call for an array,
  returns is a deep copy \<open>k\<close> levels down.
\<close>

definition mirrorsC :: "heap \<Rightarrow> nat \<Rightarrow> CopyArgs \<Rightarrow> (heap \<Rightarrow> CopyArgs \<Rightarrow> error + heap \<times> addr) \<Rightarrow> bool" where
  "mirrorsC h0 k kw0 rc = (\<forall>h kw a h' r. extends h0 h \<longrightarrow> sameFlags kw kw0 \<longrightarrow> target kw = None \<longrightarrow>
      sources kw = [a] \<longrightarrow> a < length h0 \<longrightarrow> isObject h0 (Ref a) \<longrightarrow> fits k kw0 h0 (Ref a) \<longrightarrow>
      rc h kw = Inr (h', r) \<longrightarrow> mirrors k kw0 h0 (length h) h' (Ref a) (Ref r))"

definition mirrorsA :: "heap \<Rightarrow> nat \<Rightarrow> CopyArgs \<Rightarrow> (heap \<Rightarrow> addr \<Rightarrow> CopyArgs \<Rightarrow> error + heap \<times> addr) \<Rightarrow> bool" where
  "mirrorsA h0 k kw0 ra = (\<forall>h kw a h' r. extends h0 h \<longrightarrow> sameFlags kw kw0 \<longrightarrow>
      a < length h0 \<longrightarrow> isArray h0 (Ref a) \<longrightarrow> fits k kw0 h0 (Ref a) \<longrightarrow>
      ra h a kw = Inr (h', r) \<longrightarrow> mirrors k kw0 h0 (length h) h' (Ref a) (Ref r))"

text \<open>
  \<^verbatim>\<open>var s = { a: { b: 1 }, list: [ 1, { b: 1 } ], re: /x/ }; copy({ deep: true, sources: [ s ] })\<close>:
  the two inner objects are at 3 and 4, the array at 5, the regular expression at 6, \<open>s\<close> at 7.
\<close>

definition nestedStore :: heap where
  "nestedStore = bareRealm @
     [plain [(''b'', Num 1)],
      plain [(''b'', Num 1)],
      newArray [Num 1, Ref 4],
      \<lparr>proto = Some RegExpPrototype, kind = Ordinary, elems = [], props = [], extensible = True\<rparr>,
      plain [(''a'', Ref 3), (''list'', Ref 5), (''re'', Ref 6)]]"

definition nestedArgs :: CopyArgs where
  "nestedArgs = \<lparr>deep = True, descriptors = False, inherited = False, assignPrototype = False,
     target = None, sources = [7]\<rparr>"

section \<open>The timing wrappers: theorems\<close>

lemma runThrottled_accepted:
  "(\<forall>(now1, now2, c, a) \<in> set cs. now2 \<noteq> 0) \<Longrightarrow>
   lastRunTick s = (case l of None \<Rightarrow> 0 | Some x \<Rightarrow> x) \<Longrightarrow> l \<noteq> Some 0 \<Longrightarrow>
   firedT (runThrottled delay cs s) = firedT s @ acceptedCalls delay l cs"
proof (induction cs arbitrary: s l)
  case Nil
  then show ?case by simp
next
  case (Cons x cs)
  obtain now1 now2 c a where x: "x = (now1, now2, c, a)" by (cases x) auto
  from Cons.prems(1) x have n2: "now2 \<noteq> 0" and rest: "\<forall>(now1, now2, c, a) \<in> set cs. now2 \<noteq> 0" by auto
  show ?case
  proof (cases l)
    case None
    with Cons.prems have "throttled delay now1 now2 c a s = s\<lparr>firedT := firedT s @ [(c, a)], lastRunTick := now2\<rparr>"
      by (simp add: throttled_def)
    with Cons.IH[OF rest, of _ "Some now2"] n2 None x show ?thesis by simp
  next
    case (Some y)
    with Cons.prems have y: "lastRunTick s = y" "y \<noteq> 0" by auto
    show ?thesis
    proof (cases "now1 - y < delay")
      case True
      with y have "throttled delay now1 now2 c a s = s" by (simp add: throttled_def)
      with Cons.IH[OF rest, of s "Some y"] y True Some x show ?thesis by simp
    next
      case False
      with y have "throttled delay now1 now2 c a s = s\<lparr>firedT := firedT s @ [(c, a)], lastRunTick := now2\<rparr>"
        by (simp add: throttled_def)
      with Cons.IH[OF rest, of _ "Some now2"] n2 False Some x show ?thesis by simp
    qed
  qed
qed




lemma dueTask_single:
  "dueTask now j [(i, due, c, a)] = (if j = i \<and> due \<le> now then Some (i, due, c, a) else None)"
  by (simp add: dueTask_def)

lemma debounced_pending:
  "pendingD delay s l f \<Longrightarrow> pendingD delay (debounced delay u c a s) (u, c, a) f"
  by (auto simp: pendingD_def debounced_def Let_def setTimeout_def clearTimeout_def split: prod.splits)

lemma debounced_idle:
  "idleD s \<Longrightarrow> pendingD delay (debounced delay u c a s) (u, c, a) (firedD s)"
  by (auto simp: pendingD_def idleD_def debounced_def Let_def setTimeout_def clearTimeout_def)

lemma expireD_early:
  "pendingD delay s (t, c, a) f \<Longrightarrow> u < t + delay \<Longrightarrow> expireD u j s = s"
  by (auto simp: pendingD_def expireD_def dueTask_single)

lemma runD_pending:
  "pendingD delay s (t, c, a) f \<Longrightarrow> burst delay t es \<Longrightarrow>
   pendingD delay (runD delay es s) (lastInvoke (t, c, a) es) f"
proof (induction es arbitrary: s t c a)
  case Nil
  then show ?case by simp
next
  case (Cons e es)
  show ?case
  proof (cases e)
    case (Invoke u c' a')
    with Cons.prems have "burst delay u es" by simp
    moreover have "pendingD delay (debounced delay u c' a' s) (u, c', a') f"
      using Cons.prems(1) by (rule debounced_pending)
    ultimately show ?thesis using Cons.IH Invoke by simp
  next
    case (Expire u j)
    with Cons.prems have "u < t + delay" "burst delay t es" by simp_all
    with Cons.prems(1) have "expireD u j s = s" by (simp add: expireD_early)
    with Cons.IH[OF Cons.prems(1) \<open>burst delay t es\<close>] Expire show ?thesis by simp
  qed
qed




lemma runA_pending:
  "pendingA delay s t c a f k \<Longrightarrow> window delay t es \<Longrightarrow> pendingA delay (runA delay es s) t c a f k"
proof (induction es arbitrary: s)
  case Nil
  then show ?case by simp
next
  case (Cons e es)
  have "stepA delay e s = s"
  proof (cases e)
    case (Invoke u c' a')
    with Cons.prems(1) show ?thesis by (simp add: pendingA_def throttledAfter_def)
  next
    case (Expire u j)
    with Cons.prems have "u < t + delay" by simp
    with Cons.prems(1) Expire show ?thesis by (auto simp: pendingA_def expireA_def dueTask_single)
  qed
  moreover from Cons.prems(2) have "window delay t es" by (cases e) simp_all
  ultimately show ?case using Cons.IH[OF Cons.prems(1)] by simp
qed


section \<open>lang.ts: what an operation changes in the store\<close>

lemma extends_iff: "extends h h' \<longleftrightarrow> length h \<le> length h' \<and> (\<forall>a < length h. h' ! a = h ! a)"
  by (auto simp: extends_def list_eq_iff_nth_eq)

lemma changesOnly_iff:
  "changesOnly t h h' \<longleftrightarrow> length h \<le> length h' \<and>
     (\<forall>a < length h. if a = t then sameShell (h ! a) (h' ! a) else h' ! a = h ! a)"
  by (auto simp: changesOnly_def list_all_iff)

lemma sameShell_refl [simp]: "sameShell ob ob"
  by (simp add: sameShell_def)

lemma sameShell_trans: "sameShell a b \<Longrightarrow> sameShell b c \<Longrightarrow> sameShell a c"
  by (simp add: sameShell_def)

lemma extends_refl [simp]: "extends h h"
  by (simp add: extends_def)

lemma extends_trans: "extends h h1 \<Longrightarrow> extends h1 h2 \<Longrightarrow> extends h h2"
  by (auto simp: extends_iff)

lemma changesOnly_refl [simp]: "changesOnly t h h"
  by (simp add: changesOnly_iff)

lemma changesOnly_trans: "changesOnly t h h1 \<Longrightarrow> changesOnly t h1 h2 \<Longrightarrow> changesOnly t h h2"
  unfolding changesOnly_iff
  by (smt (verit) sameShell_trans order_trans less_le_trans)

lemma extends_changesOnly: "extends h h' \<Longrightarrow> changesOnly t h h'"
  by (auto simp: extends_iff changesOnly_iff)

lemma changesOnly_fresh: "changesOnly t h h' \<Longrightarrow> length h \<le> t \<Longrightarrow> extends h h'"
  by (auto simp: extends_iff changesOnly_iff)

lemma extends_alloc: "alloc h ob = (h', a) \<Longrightarrow> extends h h' \<and> a = length h \<and> length h' = Suc (length h) \<and> h' ! a = ob"
  by (auto simp: alloc_def extends_iff nth_append)

lemma changesOnly_putOwn: "changesOnly t h (putOwn h t n d)"
  by (auto simp: changesOnly_iff putOwn_def sameShell_def)

lemma length_putOwn [simp]: "length (putOwn h t n d) = length h"
  by (simp add: putOwn_def)

lemma call_pure:
  assumes "pureCalls iv" and "call iv h f this args = Inr (h', v)"
  shows "h' = h"
proof -
  from assms(2) have "iv h f this args = Inr (h', v)" by (simp add: call_def split: sum.splits)
  with assms(1) show ?thesis unfolding pureCalls_def by blast
qed

lemma Get_pure: "pureCalls iv \<Longrightarrow> Get iv h a n = Inr (h', v) \<Longrightarrow> h' = h"
  by (auto simp: Get_def split: option.splits descriptor.splits if_splits dest: call_pure)

lemma storeOwn_frame: "storeOwn strict h t n v = Inr h' \<Longrightarrow> changesOnly t h h'"
  by (auto simp: storeOwn_def reject_def changesOnly_putOwn split: option.splits descriptor.splits if_splits)

lemma Put_frame: "pureCalls iv \<Longrightarrow> Put iv strict h t n v = Inr h' \<Longrightarrow> changesOnly t h h'"
  by (auto simp: Put_def reject_def split: option.splits descriptor.splits if_splits sum.splits
      dest: call_pure storeOwn_frame)

lemma storeOwn_length: "storeOwn strict h t n v = Inr h' \<Longrightarrow> length h' = length h"
  by (auto simp: storeOwn_def reject_def split: option.splits descriptor.splits if_splits)

lemma Put_length: "pureCalls iv \<Longrightarrow> Put iv strict h t n v = Inr h' \<Longrightarrow> length h' = length h"
  by (auto simp: Put_def reject_def split: option.splits descriptor.splits if_splits sum.splits
      dest: call_pure storeOwn_length)

lemma defineProperty_frame: "defineProperty h t n d = Inr h' \<Longrightarrow> changesOnly t h h'"
  by (auto simp: defineProperty_def changesOnly_putOwn split: option.splits if_splits)

lemma defineProperty_length: "defineProperty h t n d = Inr h' \<Longrightarrow> length h' = length h"
  by (auto simp: defineProperty_def split: option.splits if_splits)

lemma extends_length: "extends h h' \<Longrightarrow> length h \<le> length h'"
  by (simp add: extends_def)

lemma changesOnly_length: "changesOnly t h h' \<Longrightarrow> length h \<le> length h'"
  by (simp add: changesOnly_def)

lemma namesOfLevel_frame:
  "pureCalls iv \<Longrightarrow> namesOfLevel iv strict sn h names ns = Inr (h', names') \<Longrightarrow>
   changesOnly sn h h' \<and> length h' = length h"
proof (induction ns arbitrary: h names)
  case Nil
  then show ?case by simp
next
  case (Cons n ns)
  from Cons.prems(2) obtain h1 v where g: "Get iv h sn n = Inr (h1, v)"
    by (auto split: sum.splits)
  with Cons.prems(1) have h1: "h1 = h" by (auto dest: Get_pure)
  show ?case
  proof (cases "v \<noteq> Bool True")
    case True
    with Cons.prems(2) g h1 obtain h2 where p: "Put iv strict h sn n (Bool True) = Inr h2"
      and r: "namesOfLevel iv strict sn h2 (names @ [n]) ns = Inr (h', names')"
      by (auto split: sum.splits)
    from Put_frame[OF Cons.prems(1) p] Put_length[OF Cons.prems(1) p] Cons.IH[OF Cons.prems(1) r]
    show ?thesis by (auto intro: changesOnly_trans)
  next
    case False
    with Cons.prems(2) g h1 have "namesOfLevel iv strict sn h names ns = Inr (h', names')"
      by auto
    from Cons.IH[OF Cons.prems(1) this] show ?thesis .
  qed
qed

lemma walkPrototypes_frame:
  "pureCalls iv \<Longrightarrow> walkPrototypes k iv strict sn h names ob = Inr (h', names') \<Longrightarrow>
   changesOnly sn h h' \<and> length h' = length h"
proof (induction k arbitrary: h names ob)
  case 0
  then show ?case by simp
next
  case (Suc k)
  from Suc.prems(2) obtain h1 names1 where
    l: "namesOfLevel iv strict sn h names (ownNames (h ! ob)) = Inr (h1, names1)"
    by (auto split: sum.splits)
  note f1 = namesOfLevel_frame[OF Suc.prems(1) l]
  show ?case
  proof (cases "\<exists>p. proto (h1 ! ob) = Some p \<and> p \<noteq> ObjectPrototype")
    case True
    then obtain p where p: "proto (h1 ! ob) = Some p" "p \<noteq> ObjectPrototype" by auto
    with Suc.prems(2) l have "walkPrototypes k iv strict sn h1 names1 p = Inr (h', names')"
      by simp
    from Suc.IH[OF Suc.prems(1) this] f1 show ?thesis by (auto intro: changesOnly_trans)
  next
    case False
    with Suc.prems(2) l have "h' = h1" by (auto split: option.splits if_splits)
    with f1 show ?thesis by simp
  qed
qed

lemma getPropertyNames_frame:
  assumes "pureCalls iv" and "getPropertyNames iv strict h ob = Inr (h', names)"
  shows "extends h h' \<and> length h' = Suc (length h)"
proof -
  let ?h1 = "h @ [newObject (Some ObjectPrototype)]"
  from assms(2) have w: "walkPrototypes (length ?h1) iv strict (length h) ?h1 [] ob = Inr (h', names)"
    by (simp add: getPropertyNames_def alloc_def)
  from walkPrototypes_frame[OF assms(1) w]
  have c: "changesOnly (length h) ?h1 h'" and l: "length h' = length ?h1" by simp_all
  have "extends h ?h1" by (simp add: extends_iff nth_append)
  moreover from c have "\<forall>a < length h. h' ! a = ?h1 ! a"
    by (auto simp: changesOnly_iff)
  ultimately show ?thesis using l by (auto simp: extends_iff nth_append)
qed

lemma cloneValue_frame:
  assumes "allocatesC rc" and "allocatesA ra" and "\<And>a. target (nested a) = None"
    and "cloneValue rc ra h kw nested v = Inr (h', v')"
  shows "extends h h' \<and> (v' = v \<or> (\<exists>r. v' = Ref r \<and> length h \<le> r \<and> r < length h'))"
proof (cases v)
  case (Ref a)
  show ?thesis
  proof (cases "isArray h v")
    case True
    with assms(4) Ref obtain r where "ra h a kw = Inr (h', r)" "v' = Ref r"
      by (auto simp: cloneValue_def split: sum.splits)
    with assms(2) show ?thesis unfolding allocatesA_def by blast
  next
    case False
    show ?thesis
    proof (cases "isObject h v")
      case True
      with assms(4) Ref False obtain r where "rc h (nested a) = Inr (h', r)" "v' = Ref r"
        by (auto simp: cloneValue_def split: sum.splits)
      with assms(1,3) show ?thesis unfolding allocatesC_def by blast
    next
      case nob: False
      with assms(4) Ref False show ?thesis by (simp add: cloneValue_def)
    qed
  qed
qed (use assms(4) in \<open>auto simp: cloneValue_def\<close>)

lemma copyItems_frame:
  assumes "allocatesC rc" and "allocatesA ra"
  shows "copyItems rc ra h kw items = Inr (h', vs) \<Longrightarrow> extends h h' \<and> length vs = length items"
proof (induction items arbitrary: h vs)
  case Nil
  then show ?case by simp
next
  case (Cons item items)
  from Cons.prems obtain h1 v vs1 where
    c: "cloneValue rc ra h kw (nestedOfArray kw) item = Inr (h1, v)"
    and r: "copyItems rc ra h1 kw items = Inr (h', vs1)" and vs: "vs = v # vs1"
    by (auto split: sum.splits)
  have "\<And>a. target (nestedOfArray kw a) = None" by (simp add: nestedOfArray_def)
  from cloneValue_frame[OF assms this c] Cons.IH[OF r] vs show ?case
    by (auto intro: extends_trans)
qed

lemma copyArrayBody_frame:
  assumes "allocatesC rc" and "allocatesA ra" and "copyArrayBody rc ra h a kw = Inr (h', r)"
  shows "extends h h' \<and> length h \<le> r \<and> r < length h'"
proof -
  from assms(3) obtain h1 vs where c: "copyItems rc ra h kw (elems (h ! a)) = Inr (h1, vs)"
    and a: "alloc h1 (newArray vs) = (h', r)"
    by (auto simp: copyArrayBody_def split: sum.splits)
  from copyItems_frame[OF assms(1,2) c] extends_alloc[OF a] show ?thesis
    by (auto intro: extends_trans dest: extends_length)
qed

lemma deepDescriptor_frame:
  assumes "allocatesC rc" and "allocatesA ra" and "deepDescriptor rc ra h kw d = Inr (h', d')"
  shows "extends h h'"
proof (cases d)
  case (Data v w e c)
  with assms(3) obtain v1 where c: "cloneValue rc ra h kw (nestedOfDescriptor kw) v = Inr (h', v1)"
    by (auto simp: deepDescriptor_def split: sum.splits)
  have "\<And>a. target (nestedOfDescriptor kw a) = None" by (simp add: nestedOfDescriptor_def)
  from cloneValue_frame[OF assms(1,2) this c] show ?thesis by simp
next
  case (Accessor g s e c)
  with assms(3) show ?thesis by (simp add: deepDescriptor_def)
qed

lemma copyDescriptors_frame:
  assumes "allocatesC rc" and "allocatesA ra"
  shows "copyDescriptors rc ra h kw t s names = Inr h' \<Longrightarrow> changesOnly t h h'"
proof (induction names arbitrary: h)
  case Nil
  then show ?case by simp
next
  case (Cons n names)
  from Cons.prems obtain d h1 d1 h2 where
    d: "(if deep kw then deepDescriptor rc ra h kw d else Inr (h, d)) = Inr (h1, d1)"
    and p: "defineProperty h1 t n d1 = Inr h2"
    and r: "copyDescriptors rc ra h2 kw t s names = Inr h'"
    by (auto split: option.splits sum.splits)
  from d have "extends h h1"
    by (auto split: if_splits dest: deepDescriptor_frame[OF assms])
  with defineProperty_frame[OF p] Cons.IH[OF r] show ?case
    by (blast intro: changesOnly_trans extends_changesOnly)
qed

lemma copyEnumerable_frame:
  assumes "allocatesC rc" and "allocatesA ra" and "pureCalls iv"
  shows "copyEnumerable rc ra iv strict h kw t s names = Inr h' \<Longrightarrow> changesOnly t h h'"
proof (induction names arbitrary: h)
  case Nil
  then show ?case by simp
next
  case (Cons n names)
  show ?case
  proof (cases "inherited kw \<or> ownDesc (h ! s) n \<noteq> None")
    case True
    with Cons.prems obtain h1 v h2 v2 h3 where
      g: "Get iv h s n = Inr (h1, v)"
      and c: "(if deep kw then cloneValue rc ra h1 kw (nestedOfValue kw) v else Inr (h1, v)) = Inr (h2, v2)"
      and p: "Put iv strict h2 t n v2 = Inr h3"
      and r: "copyEnumerable rc ra iv strict h3 kw t s names = Inr h'"
      by (auto split: sum.splits)
    from Get_pure[OF assms(3) g] have h1: "h1 = h" .
    have "\<And>a. target (nestedOfValue kw a) = None" by (simp add: nestedOfValue_def)
    have "extends h h2"
    proof (cases "deep kw")
      case True
      with c h1 have "cloneValue rc ra h kw (nestedOfValue kw) v = Inr (h2, v2)" by simp
      from cloneValue_frame[OF assms(1,2) \<open>\<And>a. target (nestedOfValue kw a) = None\<close> this]
      show ?thesis by simp
    next
      case False
      with c h1 show ?thesis by simp
    qed
    with Put_frame[OF assms(3) p] Cons.IH[OF r] show ?thesis
      by (blast intro: changesOnly_trans extends_changesOnly)
  next
    case False
    with Cons.prems have "copyEnumerable rc ra iv strict h kw t s names = Inr h'" by simp
    from Cons.IH[OF this] show ?thesis .
  qed
qed

lemma copySource_frame:
  assumes "allocatesC rc" and "allocatesA ra" and "pureCalls iv"
    and "copySource rc ra iv strict h kw t s = Inr h'"
  shows "changesOnly t h h'"
proof (cases "descriptors kw")
  case True
  with assms(4) obtain h1 names where
    n: "(if inherited kw then getPropertyNames iv strict h s else Inr (h, ownNames (h ! s))) = Inr (h1, names)"
    and c: "copyDescriptors rc ra h1 kw t s names = Inr h'"
    by (auto simp: copySource_def split: sum.splits)
  from n have "extends h h1"
    by (auto split: if_splits dest: getPropertyNames_frame[OF assms(3)])
  with copyDescriptors_frame[OF assms(1,2) c] show ?thesis
    by (blast intro: changesOnly_trans extends_changesOnly)
next
  case False
  with assms(4) show ?thesis
    by (auto simp: copySource_def dest: copyEnumerable_frame[OF assms(1,2,3)])
qed

lemma copySources_frame:
  assumes "allocatesC rc" and "allocatesA ra" and "pureCalls iv"
  shows "copySources rc ra iv strict h kw t ss = Inr h' \<Longrightarrow> changesOnly t h h'"
proof (induction ss arbitrary: h)
  case Nil
  then show ?case by simp
next
  case (Cons s ss)
  from Cons.prems obtain h1 where c: "copySource rc ra iv strict h kw t s = Inr h1"
    and r: "copySources rc ra iv strict h1 kw t ss = Inr h'"
    by (auto split: sum.splits)
  from copySource_frame[OF assms c] Cons.IH[OF r] show ?case
    by (blast intro: changesOnly_trans)
qed

lemma copyBody_frame:
  assumes "allocatesC rc" and "allocatesA ra" and "pureCalls iv"
    and "copyBody rc ra iv strict h kw = Inr (h', r)"
  shows "if assignPrototype kw \<or> target kw = None
         then extends h h' \<and> r = length h \<and> r < length h'
         else target kw = Some r \<and> changesOnly r h h'"
proof (cases "assignPrototype kw \<or> target kw = None")
  case True
  define ob where "ob = (if assignPrototype kw then newObject (proto (h ! hd (sources kw)))
    else newObject (Some ObjectPrototype))"
  from True have a: "newTarget h kw = (h @ [ob], length h)"
    by (auto simp: newTarget_def alloc_def ob_def)
  with assms(4) have c: "copySources rc ra iv strict (h @ [ob]) kw (length h) (sources kw) = Inr h'"
    and r: "r = length h"
    by (auto simp: copyBody_def split: if_splits sum.splits)
  from copySources_frame[OF assms(1,2,3) c] have "changesOnly (length h) (h @ [ob]) h'" .
  then have "extends h h'" "length h < length h'"
    by (auto simp: changesOnly_iff extends_iff nth_append)
  with r True show ?thesis by simp
next
  case False
  then obtain t where t: "target kw = Some t" "\<not> assignPrototype kw" by auto
  then have "newTarget h kw = (h, t)" by (simp add: newTarget_def)
  with assms(4) have c: "copySources rc ra iv strict h kw t (sources kw) = Inr h'" and r: "r = t"
    by (auto simp: copyBody_def split: if_splits sum.splits)
  from copySources_frame[OF assms(1,2,3) c] r t False show ?thesis by simp
qed

lemma copy_allocates:
  assumes "pureCalls iv"
  shows "allocatesC (copy k iv strict) \<and> allocatesA (copyArray k iv strict)"
proof (induction k)
  case 0
  show ?case by (simp add: allocatesC_def allocatesA_def)
next
  case (Suc k)
  then have c: "allocatesC (\<lambda>h' kw'. copy k iv strict h' kw')"
    and a: "allocatesA (\<lambda>h' a' kw'. copyArray k iv strict h' a' kw')" by simp_all
  have "allocatesC (copy (Suc k) iv strict)"
    unfolding allocatesC_def
  proof (intro allI impI)
    fix h kw h' r
    assume "target kw = None" and "copy (Suc k) iv strict h kw = Inr (h', r)"
    with copyBody_frame[OF c a assms, of strict h kw h' r] show "extends h h' \<and> length h \<le> r \<and> r < length h'"
      by simp
  qed
  moreover have "allocatesA (copyArray (Suc k) iv strict)"
    unfolding allocatesA_def
  proof (intro allI impI)
    fix h arr kw h' r
    assume "copyArray (Suc k) iv strict h arr kw = Inr (h', r)"
    with copyArrayBody_frame[OF c a, of h arr kw h' r] show "extends h h' \<and> length h \<le> r \<and> r < length h'"
      by simp
  qed
  ultimately show ?case by blast
qed

lemma copy_frame:
  assumes "pureCalls iv" and "copy k iv strict h kw = Inr (h', r)"
  shows "if assignPrototype kw \<or> target kw = None
         then extends h h' \<and> r = length h \<and> r < length h'
         else target kw = Some r \<and> changesOnly r h h'"
proof (cases k)
  case 0
  with assms(2) show ?thesis by simp
next
  case (Suc j)
  from copy_allocates[OF assms(1), of j strict]
  have c: "allocatesC (\<lambda>h' kw'. copy j iv strict h' kw')"
    and a: "allocatesA (\<lambda>h' a' kw'. copyArray j iv strict h' a' kw')" by simp_all
  from assms(2) Suc copyBody_frame[OF c a assms(1), of strict h kw h' r] show ?thesis by simp
qed
section \<open>lang.ts: prototype chains in a growing store\<close>

lemma changesOnly_sameProtos: "changesOnly t h h' \<Longrightarrow> sameProtos h h'"
  by (auto simp: changesOnly_iff sameProtos_def sameShell_def split: if_splits)

lemma extends_sameProtos: "extends h h' \<Longrightarrow> sameProtos h h'"
  by (auto simp: extends_iff sameProtos_def)

lemma chainFrom_stable:
  "chainFrom k h a = Some c \<Longrightarrow> sameProtos h h' \<Longrightarrow> k \<le> k' \<Longrightarrow> chainFrom k' h' a = Some c"
proof (induction k arbitrary: a c k')
  case 0
  then show ?case by simp
next
  case (Suc k)
  from Suc.prems(3) obtain j where k': "k' = Suc j" "k \<le> j" by (cases k') auto
  from Suc.prems(1) have a: "a < length h" by (auto split: if_splits)
  with Suc.prems(2) have a': "a < length h'" "proto (h' ! a) = proto (h ! a)"
    by (auto simp: sameProtos_def)
  show ?case
  proof (cases "proto (h ! a)")
    case None
    with Suc.prems(1) a a' k' show ?thesis by simp
  next
    case (Some p)
    with Suc.prems(1) a obtain c1 where c1: "chainFrom k h p = Some c1" "c = a # c1"
      by auto
    from Suc.IH[OF c1(1) Suc.prems(2) k'(2)] c1 Some a' k' show ?thesis by simp
  qed
qed

lemma chainFrom_hd: "chainFrom k h a = Some c \<Longrightarrow> \<exists>c1. c = a # c1"
  by (cases k) (auto split: if_splits option.splits)

lemma chainFrom_bound: "chainFrom k h a = Some c \<Longrightarrow> set c \<subseteq> {..<length h}"
proof (induction k arbitrary: a c)
  case 0
  then show ?case by simp
next
  case (Suc k)
  then show ?case by (fastforce split: if_splits option.splits)
qed

lemma chainFrom_tl:
  "chainFrom k h a = Some (a # c1) \<Longrightarrow> c1 \<noteq> [] \<Longrightarrow>
   \<exists>p j. proto (h ! a) = Some p \<and> k = Suc j \<and> chainFrom j h p = Some c1"
  by (cases k) (auto split: if_splits option.splits)

lemma protoChain_stable:
  assumes "chainFrom (length h) h a = Some c" and "sameProtos h h'"
  shows "protoChain h' a = c" and "protoChain h a = c"
proof -
  from assms(2) have "length h \<le> length h'" by (simp add: sameProtos_def)
  from chainFrom_stable[OF assms(1,2) this] show "protoChain h' a = c"
    by (simp add: protoChain_def)
  from assms(1) show "protoChain h a = c" by (simp add: protoChain_def)
qed

lemma wellFormed_chain:
  "wellFormed h \<Longrightarrow> a < length h \<Longrightarrow> \<exists>c. chainFrom (length h) h a = Some c"
  by (auto simp: wellFormed_def list_all_iff)

lemma wellFormed_okObj: "wellFormed h \<Longrightarrow> a < length h \<Longrightarrow> okObj (length h) (h ! a)"
  by (auto simp: wellFormed_def list_all_iff)

lemma findDesc_cong:
  "(\<And>a. a \<in> set c \<Longrightarrow> h' ! a = h ! a) \<Longrightarrow> findDesc h' c n = findDesc h c n"
  by (induction c) (auto split: option.splits)

section \<open>lang.ts: own properties after a write\<close>

lemma digit_in: "n < 10 \<Longrightarrow> digit n \<in> set ''0123456789''"
proof -
  assume "n < 10"
  then have "n \<in> {0,1,2,3,4,5,6,7,8,9}" by auto
  then show ?thesis by auto
qed

lemma digit_zero: "n < 10 \<Longrightarrow> digit n = CHR ''0'' \<longleftrightarrow> n = 0"
proof -
  assume "n < 10"
  then have "n \<in> {0,1,2,3,4,5,6,7,8,9}" by auto
  then show ?thesis by auto
qed

lemma indexName_digits: "indexName n \<noteq> [] \<and> list_all (\<lambda>c. c \<in> set ''0123456789'') (indexName n) \<and> (hd (indexName n) = CHR ''0'' \<longrightarrow> n = 0)"
proof (induction n rule: indexName.induct)
  case (1 n)
  show ?case
  proof (cases "n < 10")
    case True
    then show ?thesis using digit_in[OF True] digit_zero[OF True]
      by (subst (1 2 3) indexName.simps) (simp del: digit.simps)
  next
    case False
    have m: "n mod 10 < 10" by simp
    from False have nz: "n div 10 \<noteq> 0" by auto
    from 1[OF False] nz have "indexName (n div 10) \<noteq> []"
      "list_all (\<lambda>c. c \<in> set ''0123456789'') (indexName (n div 10))"
      "hd (indexName (n div 10)) \<noteq> CHR ''0''" by auto
    then show ?thesis using False digit_in[OF m]
      by (subst (1 2 3) indexName.simps) (simp del: digit.simps)
  qed
qed

lemma isIndexName_indexName: "isIndexName (indexName n)"
proof -
  have "indexName 0 = ''0''" by (subst indexName.simps) simp
  with indexName_digits[of n] show ?thesis
    by (cases "n = 0") (auto simp: isIndexName_def)
qed

lemma not_exotic_find:
  "\<not> exotic ob n \<Longrightarrow> kind ob = ArrayObj \<Longrightarrow> find (\<lambda>i. indexName i = n) [0..<k] = None \<and> n \<noteq> ''length''"
  using isIndexName_indexName by (auto simp: exotic_def find_None_iff)

lemma ownDesc_plain: "\<not> exotic ob n \<Longrightarrow> ownDesc ob n = map_of (props ob) n"
proof (cases "kind ob = ArrayObj")
  case True
  assume "\<not> exotic ob n"
  from not_exotic_find[OF this True, of "length (elems ob)"] True show ?thesis
    by (simp add: ownDesc_def)
next
  case False
  then show ?thesis by (simp add: ownDesc_def)
qed

lemma map_of_setDesc: "map_of (setDesc n d ps) m = (if m = n then Some d else map_of ps m)"
  by (induction ps) auto

lemma fst_setDesc:
  "map fst (setDesc n d ps) = (if n \<in> fst ` set ps then map fst ps else map fst ps @ [n])"
  by (induction ps) force+

lemma ownDesc_props_cong:
  assumes "kind ob' = kind ob" and "elems ob' = elems ob" and "map_of (props ob') m = map_of (props ob) m"
  shows "ownDesc ob' m = ownDesc ob m"
  unfolding ownDesc_def assms ..

lemma putOwn_nth:
  "t < length h \<Longrightarrow> putOwn h t n d ! a = (if a = t then (h ! t)\<lparr>props := setDesc n d (props (h ! t))\<rparr> else h ! a)"
  by (simp add: putOwn_def)

lemma exotic_putOwn: "t < length h \<Longrightarrow> exotic (putOwn h t n d ! t) m = exotic (h ! t) m"
  by (simp add: putOwn_nth exotic_def)

lemma ownDesc_putOwn_same:
  "t < length h \<Longrightarrow> \<not> exotic (h ! t) n \<Longrightarrow> ownDesc (putOwn h t n d ! t) n = Some d"
  using ownDesc_plain[of "putOwn h t n d ! t" n]
  by (simp add: exotic_putOwn) (simp add: putOwn_nth map_of_setDesc)

lemma ownDesc_putOwn_other:
  "m \<noteq> n \<Longrightarrow> ownDesc (putOwn h t n d ! a) m = ownDesc (h ! a) m"
proof (cases "a = t \<and> t < length h")
  case True
  assume "m \<noteq> n"
  then show ?thesis using True
    by (auto simp: putOwn_nth map_of_setDesc intro!: ownDesc_props_cong)
next
  case False
  then show ?thesis by (auto simp: putOwn_def list_update_beyond)
qed

lemma defineProperty_same:
  "defineProperty h t n d = Inr h' \<Longrightarrow> t < length h \<Longrightarrow> ownDesc (h' ! t) n = Some d"
  by (auto simp: defineProperty_def ownDesc_putOwn_same split: if_splits option.splits)

lemma defineProperty_other:
  "defineProperty h t n d = Inr h' \<Longrightarrow> m \<noteq> n \<Longrightarrow> ownDesc (h' ! a) m = ownDesc (h ! a) m"
  by (auto simp: defineProperty_def ownDesc_putOwn_other split: if_splits option.splits)

lemma changesOnly_ownDesc:
  "changesOnly t h h' \<Longrightarrow> a < length h \<Longrightarrow> a \<noteq> t \<Longrightarrow> ownDesc (h' ! a) m = ownDesc (h ! a) m"
  by (auto simp: changesOnly_iff)

lemma extends_nth: "extends h h' \<Longrightarrow> a < length h \<Longrightarrow> h' ! a = h ! a"
  by (simp add: extends_iff)
section \<open>lang.ts: where a RangeError comes from\<close>

lemma call_noRange: "call iv h f this args \<noteq> Inl (RangeError m)"
  by (simp add: call_def split: sum.splits)

lemma Get_noRange: "Get iv h a n \<noteq> Inl (RangeError m)"
  by (simp add: Get_def call_noRange split: option.splits descriptor.splits)

lemma storeOwn_noRange: "storeOwn strict h a n v \<noteq> Inl (RangeError m)"
  by (simp add: storeOwn_def reject_def split: option.splits descriptor.splits)

lemma Put_noRange: "Put iv strict h a n v \<noteq> Inl (RangeError m)"
  using call_noRange[of iv h _ "Ref a" "[v]" m]
  by (auto simp: Put_def reject_def storeOwn_noRange split: option.splits descriptor.splits sum.splits if_splits)

lemma defineProperty_noRange: "defineProperty h a n d \<noteq> Inl (RangeError m)"
  by (simp add: defineProperty_def split: option.splits)

lemma namesOfLevel_noRange: "namesOfLevel iv strict sn h names ns \<noteq> Inl (RangeError m)"
proof (induction ns arbitrary: h names)
  case Nil
  then show ?case by simp
next
  case (Cons n ns)
  then show ?case
    using Get_noRange[of iv h sn n m] Put_noRange[of iv strict _ sn n "Bool True" m]
    by (auto split: sum.splits)
qed

lemma walkPrototypes_noRange: "walkPrototypes k iv strict sn h names ob \<noteq> Inl (RangeError m)"
proof (induction k arbitrary: h names ob)
  case 0
  then show ?case by simp
next
  case (Suc k)
  then show ?case
    using namesOfLevel_noRange[of iv strict sn h names "ownNames (h ! ob)" m]
    by (auto split: sum.splits option.splits)
qed

lemma getPropertyNames_noRange: "getPropertyNames iv strict h ob \<noteq> Inl (RangeError m)"
  by (simp add: getPropertyNames_def alloc_def walkPrototypes_noRange del: walkPrototypes.simps)

lemma cloneValue_noRange:
  assumes "noRangeC rc" and "noRangeA ra" and "\<And>a. sources (nested a) \<noteq> []"
  shows "cloneValue rc ra h kw nested v \<noteq> Inl (RangeError m)"
proof (cases v)
  case (Ref a)
  from assms(1,3) have "rc h (nested a) \<noteq> Inl (RangeError m)" by (simp add: noRangeC_def)
  moreover from assms(2) have "ra h a kw \<noteq> Inl (RangeError m)" by (simp add: noRangeA_def)
  ultimately show ?thesis using Ref by (auto simp: cloneValue_def split: sum.splits)
qed (simp_all add: cloneValue_def)

lemma copyItems_noRange:
  assumes "noRangeC rc" and "noRangeA ra"
  shows "copyItems rc ra h kw items \<noteq> Inl (RangeError m)"
proof (induction items arbitrary: h)
  case Nil
  then show ?case by simp
next
  case (Cons item items)
  have "cloneValue rc ra h kw (nestedOfArray kw) item \<noteq> Inl (RangeError m)"
    by (rule cloneValue_noRange[OF assms]) (simp add: nestedOfArray_def)
  with Cons show ?case by (auto split: sum.splits)
qed

lemma copyArrayBody_noRange:
  assumes "noRangeC rc" and "noRangeA ra"
  shows "copyArrayBody rc ra h a kw \<noteq> Inl (RangeError m)"
  using copyItems_noRange[OF assms, of h kw "elems (h ! a)" m]
  by (auto simp: copyArrayBody_def split: sum.splits)

lemma deepDescriptor_noRange:
  assumes "noRangeC rc" and "noRangeA ra"
  shows "deepDescriptor rc ra h kw d \<noteq> Inl (RangeError m)"
proof (cases d)
  case (Data v w e c)
  have "cloneValue rc ra h kw (nestedOfDescriptor kw) v \<noteq> Inl (RangeError m)"
    by (rule cloneValue_noRange[OF assms]) (simp add: nestedOfDescriptor_def)
  with Data show ?thesis by (auto simp: deepDescriptor_def split: sum.splits)
qed (simp add: deepDescriptor_def)

lemma copyDescriptors_noRange:
  assumes "noRangeC rc" and "noRangeA ra"
  shows "copyDescriptors rc ra h kw t s names \<noteq> Inl (RangeError m)"
proof (induction names arbitrary: h)
  case Nil
  then show ?case by simp
next
  case (Cons n names)
  then show ?case
    using deepDescriptor_noRange[OF assms, of h kw _ m] defineProperty_noRange[of _ t n _ m]
    by (auto split: sum.splits option.splits if_splits)
qed

lemma copyEnumerable_noRange:
  assumes "noRangeC rc" and "noRangeA ra"
  shows "copyEnumerable rc ra iv strict h kw t s names \<noteq> Inl (RangeError m)"
proof (induction names arbitrary: h)
  case Nil
  then show ?case by simp
next
  case (Cons n names)
  have c: "\<And>h1 v. cloneValue rc ra h1 kw (nestedOfValue kw) v \<noteq> Inl (RangeError m)"
    by (rule cloneValue_noRange[OF assms]) (simp add: nestedOfValue_def)
  from Cons show ?case
    using Get_noRange[of iv h s n m] Put_noRange[of iv strict _ t n _ m] c
    by (auto split: sum.splits if_splits)
qed

lemma copySource_noRange:
  assumes "noRangeC rc" and "noRangeA ra"
  shows "copySource rc ra iv strict h kw t s \<noteq> Inl (RangeError m)"
  using getPropertyNames_noRange[of iv strict h s m] copyDescriptors_noRange[OF assms, of _ kw t s _ m]
    copyEnumerable_noRange[OF assms, of iv strict h kw t s _ m]
  by (auto simp: copySource_def split: sum.splits if_splits)

lemma copySources_noRange:
  assumes "noRangeC rc" and "noRangeA ra"
  shows "copySources rc ra iv strict h kw t ss \<noteq> Inl (RangeError m)"
proof (induction ss arbitrary: h)
  case Nil
  then show ?case by simp
next
  case (Cons s ss)
  then show ?case using copySource_noRange[OF assms, of iv strict h kw t s m]
    by (auto split: sum.splits)
qed

lemma copyBody_RangeError:
  assumes "noRangeC rc" and "noRangeA ra"
  shows "copyBody rc ra iv strict h kw = Inl (RangeError m) \<longleftrightarrow>
         sources kw = [] \<and> m = ''lang.copy requires at least one source object.''"
proof (cases "sources kw = []")
  case True
  then show ?thesis by (auto simp: copyBody_def)
next
  case False
  then show ?thesis using copySources_noRange[OF assms, of iv strict _ kw _ "sources kw" m]
    by (auto simp: copyBody_def split: sum.splits prod.splits)
qed

lemma copy_noRange: "noRangeC (copy k iv strict) \<and> noRangeA (copyArray k iv strict)"
proof (induction k)
  case 0
  show ?case by (simp add: noRangeC_def noRangeA_def)
next
  case (Suc k)
  then have c: "noRangeC (\<lambda>h' kw'. copy k iv strict h' kw')"
    and a: "noRangeA (\<lambda>h' a' kw'. copyArray k iv strict h' a' kw')" by simp_all
  have "noRangeC (copy (Suc k) iv strict)"
    unfolding noRangeC_def using copyBody_RangeError[OF c a, of iv strict] by simp
  moreover have "noRangeA (copyArray (Suc k) iv strict)"
    unfolding noRangeA_def using copyArrayBody_noRange[OF c a] by simp
  ultimately show ?case by blast
qed

lemma copy_RangeError:
  "copy (Suc k) iv strict h kw = Inl (RangeError m) \<longleftrightarrow>
   sources kw = [] \<and> m = ''lang.copy requires at least one source object.''"
proof -
  from copy_noRange[of k iv strict]
  have c: "noRangeC (\<lambda>h' kw'. copy k iv strict h' kw')"
    and a: "noRangeA (\<lambda>h' a' kw'. copyArray k iv strict h' a' kw')" by simp_all
  from copyBody_RangeError[OF c a, of iv strict h kw m] show ?thesis by simp
qed

lemma create_RangeError:
  "create k iv strict h prototype mixins = Inl (RangeError m) \<longleftrightarrow>
   mixins = [] \<and> m = ''lang.create requires at least one mixin object.''"
proof (cases "mixins = []")
  case True
  then show ?thesis by (auto simp: create_def)
next
  case False
  with copy_noRange[of k iv strict] show ?thesis
    by (auto simp: create_def alloc_def noRangeC_def)
qed
section \<open>copy: the frame\<close>

text \<open>
  C10, as stated, fails: a target that is not a source can still be reached from one, and
  \<^verbatim>\<open>copy\<close> writes to its target. In \<open>innerTargetStore\<close> the target (at 4) is the value of the
  source's property \<^verbatim>\<open>inner\<close>; after the call it holds two properties it did not have.
\<close>

theorem copy_mutates_reachable_target:
  "copy 1 noCalls False innerTargetStore innerTargetArgs
     = Inr (innerTargetStore[4 := plain [(''inner'', Ref 4), (''x'', Num 1)]], 4)
   \<and> target innerTargetArgs = Some 4 \<and> 4 \<notin> set (sources innerTargetArgs)
   \<and> ownDesc (innerTargetStore ! 3) ''inner'' = Some (Data (Ref 4) True True True)
   \<and> props (innerTargetStore ! 4) = []
   \<and> props ((innerTargetStore[4 := plain [(''inner'', Ref 4), (''x'', Num 1)]]) ! 4)
       = [(''inner'', Data (Ref 4) True True True), (''x'', Data (Num 1) True True True)]"
  by code_simp

text \<open>
  C10, amended. Accessor calls leaving the store alone, a call of \<^verbatim>\<open>copy\<close> that returns has
  changed no object the store held before, except the named properties of the target
  it was given (when \<^verbatim>\<open>assignPrototype\<close> is not set): every other object, so every source
  and every object reachable from a source that is not that target, has exactly the
  prototype, properties, values and attributes it had, in every mode.
\<close>

theorem copy_changes_target_only:
  assumes "pureCalls iv" and "copy k iv strict h kwArgs = Inr (h', r)"
  shows "length h \<le> length h' \<and>
         (\<forall>a < length h.
            if a = r then target kwArgs = Some r \<and> \<not> assignPrototype kwArgs \<and> sameShell (h ! a) (h' ! a)
            else h' ! a = h ! a)"
proof (cases "assignPrototype kwArgs \<or> target kwArgs = None")
  case True
  with copy_frame[OF assms] have "extends h h'" "r = length h" by simp_all
  then show ?thesis by (auto simp: extends_iff)
next
  case False
  with copy_frame[OF assms] have "target kwArgs = Some r" "changesOnly r h h'" by simp_all
  with False show ?thesis by (auto simp: changesOnly_iff)
qed

theorem copy_changes_target_only_witness:
  "pureCalls noCalls
   \<and> copy 1 noCalls False innerTargetStore innerTargetArgs
       = Inr (innerTargetStore[4 := plain [(''inner'', Ref 4), (''x'', Num 1)]], 4)
   \<and> (innerTargetStore[4 := plain [(''inner'', Ref 4), (''x'', Num 1)]]) ! 3 = innerTargetStore ! 3"
proof -
  have p: "pureCalls noCalls" by (simp add: pureCalls_def noCalls_def)
  have c: "copy 1 noCalls False innerTargetStore innerTargetArgs
       = Inr (innerTargetStore[4 := plain [(''inner'', Ref 4), (''x'', Num 1)]], 4)"
    by code_simp
  have l: "(3::nat) < length innerTargetStore" by code_simp
  note q = copy_changes_target_only[OF p c, THEN conjunct2, THEN spec, of 3, THEN mp, OF l]
  from q have "(innerTargetStore[4 := plain [(''inner'', Ref 4), (''x'', Num 1)]]) ! 3 = innerTargetStore ! 3"
    by simp
  with p c show ?thesis by blast
qed
section \<open>copy: the descriptors branch\<close>

lemma okObj_ownDesc: "okObj k ob \<Longrightarrow> ownDesc ob m = Some d \<Longrightarrow> okDesc k d"
proof -
  assume ok: "okObj k ob" and d: "ownDesc ob m = Some d"
  have pr: "map_of (props ob) m = Some d \<Longrightarrow> okDesc k d"
  proof -
    assume "map_of (props ob) m = Some d"
    then have "(m, d) \<in> set (props ob)" by (rule map_of_SomeD)
    with ok show ?thesis by (auto simp: okObj_def list_all_iff)
  qed
  show ?thesis
  proof (cases "kind ob = ArrayObj")
    case True
    show ?thesis
    proof (cases "find (\<lambda>i. indexName i = m) [0..<length (elems ob)]")
      case None
      with d True pr show ?thesis
        by (auto simp: ownDesc_def okVal_def split: if_splits)
    next
      case (Some i)
      then have "i < length (elems ob)" by (auto simp: find_Some_iff)
      with ok have "okVal k (elems ob ! i)" by (auto simp: okObj_def list_all_iff)
      with d True Some show ?thesis by (auto simp: ownDesc_def)
    qed
  next
    case False
    with d pr show ?thesis by (simp add: ownDesc_def)
  qed
qed

lemma findDesc_ok:
  "\<forall>a \<in> set c. okObj k (h ! a) \<Longrightarrow> findDesc h c m = Some d \<Longrightarrow> okDesc k d"
  by (induction c) (auto split: option.splits dest: okObj_ownDesc)

lemma wellFormed_ownDesc:
  "wellFormed h \<Longrightarrow> a < length h \<Longrightarrow> ownDesc (h ! a) m = Some d \<Longrightarrow> okDesc (length h) d"
  by (blast intro: okObj_ownDesc wellFormed_okObj)

lemma wellFormed_getPropertyDescriptor:
  assumes "wellFormed h" and "a < length h" and "getPropertyDescriptor h a m = Some d"
  shows "okDesc (length h) d"
proof -
  from wellFormed_chain[OF assms(1,2)] obtain c where c: "chainFrom (length h) h a = Some c" by blast
  then have pc: "protoChain h a = c" by (simp add: protoChain_def)
  from chainFrom_bound[OF c] assms(1) have "\<forall>b \<in> set c. okObj (length h) (h ! b)"
    by (auto intro: wellFormed_okObj)
  from findDesc_ok[OF this] assms(3) pc show ?thesis by (simp add: getPropertyDescriptor_def)
qed

lemma source_stable:
  assumes "chainFrom (length h0) h0 s = Some c" and "t \<notin> set c" and "changesOnly t h0 h"
  shows "protoChain h s = c" and "protoChain h0 s = c"
    and "getPropertyDescriptor h s n = getPropertyDescriptor h0 s n"
    and "ownDesc (h ! s) n = ownDesc (h0 ! s) n" and "h ! s = h0 ! s"
proof -
  from protoChain_stable[OF assms(1) changesOnly_sameProtos[OF assms(3)]]
  show pc: "protoChain h s = c" and pc0: "protoChain h0 s = c" by simp_all
  have same: "\<And>a. a \<in> set c \<Longrightarrow> h ! a = h0 ! a"
  proof -
    fix a assume a: "a \<in> set c"
    with chainFrom_bound[OF assms(1)] have "a < length h0" by auto
    moreover from a assms(2) have "a \<noteq> t" by auto
    ultimately show "h ! a = h0 ! a"
      using assms(3)[unfolded changesOnly_iff, THEN conjunct2, rule_format, of a] by simp
  qed
  from findDesc_cong[of c h h0 n, OF same] pc pc0
  show "getPropertyDescriptor h s n = getPropertyDescriptor h0 s n"
    by (simp add: getPropertyDescriptor_def)
  from chainFrom_hd[OF assms(1)] have "s \<in> set c" by auto
  with same show "h ! s = h0 ! s" by simp
  then show "ownDesc (h ! s) n = ownDesc (h0 ! s) n" by simp
qed

lemma isArray_stable:
  "changesOnly t h0 h \<Longrightarrow> a < length h0 \<Longrightarrow> isArray h (Ref a) = isArray h0 (Ref a)"
  by (auto simp: isArray_def changesOnly_iff sameShell_def split: if_splits)

lemma isObject_stable:
  assumes "changesOnly t h0 h" and "a < length h0" and "chainFrom (length h0) h0 a = Some c"
  shows "isObject h (Ref a) = isObject h0 (Ref a)"
proof -
  from protoChain_stable[OF assms(3) changesOnly_sameProtos[OF assms(1)]]
  have "protoChain h a = protoChain h0 a" by simp
  moreover from assms(1,2) have "kind (h ! a) = kind (h0 ! a)"
    by (auto simp: changesOnly_iff sameShell_def split: if_splits)
  ultimately show ?thesis by (simp add: isObject_def isArray_def instanceofRegExp_def)
qed

lemma cloneValue_result:
  assumes "allocatesC rc" and "allocatesA ra" and "\<And>a. target (nested a) = None"
    and "cloneValue rc ra h kw nested v = Inr (h', v')"
  shows "extends h h' \<and>
         (if isArray h v \<or> isObject h v then \<exists>r. v' = Ref r \<and> length h \<le> r \<and> r < length h'
          else v' = v \<and> h' = h)"
proof (cases v)
  case (Ref a)
  show ?thesis
  proof (cases "isArray h v")
    case True
    with assms(4) Ref obtain r where r: "ra h a kw = Inr (h', r)" "v' = Ref r"
      by (auto simp: cloneValue_def split: sum.splits)
    with assms(2) have "extends h h' \<and> length h \<le> r \<and> r < length h'"
      unfolding allocatesA_def by blast
    with True r show ?thesis by simp
  next
    case False
    show ?thesis
    proof (cases "isObject h v")
      case True
      with assms(4) Ref False obtain r where r: "rc h (nested a) = Inr (h', r)" "v' = Ref r"
        by (auto simp: cloneValue_def split: sum.splits)
      with assms(1,3) have "extends h h' \<and> length h \<le> r \<and> r < length h'"
        unfolding allocatesC_def by blast
      with True r show ?thesis by simp
    next
      case nob: False
      with assms(4) Ref False show ?thesis by (simp add: cloneValue_def)
    qed
  qed
qed (use assms(4) in \<open>auto simp: cloneValue_def isArray_def isObject_def\<close>)

lemma copyDescriptors_other:
  assumes "allocatesC rc" and "allocatesA ra"
  shows "copyDescriptors rc ra h kw t s names = Inr h' \<Longrightarrow> t < length h \<Longrightarrow> m \<notin> set names \<Longrightarrow>
         ownDesc (h' ! t) m = ownDesc (h ! t) m"
proof (induction names arbitrary: h)
  case Nil
  then show ?case by simp
next
  case (Cons n names)
  from Cons.prems(1) obtain d h1 d1 h2 where
    d: "(if deep kw then deepDescriptor rc ra h kw d else Inr (h, d)) = Inr (h1, d1)"
    and p: "defineProperty h1 t n d1 = Inr h2"
    and r: "copyDescriptors rc ra h2 kw t s names = Inr h'"
    by (auto split: option.splits sum.splits)
  from d have e: "extends h h1"
    by (auto split: if_splits dest: deepDescriptor_frame[OF assms])
  with Cons.prems(2) have t1: "h1 ! t = h ! t" "t < length h1"
    by (auto simp: extends_iff)
  from defineProperty_length[OF p] t1 have t2: "t < length h2" by simp
  from Cons.prems(3) have "m \<noteq> n" "m \<notin> set names" by auto
  from Cons.IH[OF r t2 this(2)] defineProperty_other[OF p this(1), of t] t1
  show ?case by simp
qed

lemma deepDescriptor_transferred:
  assumes "allocatesC rc" and "allocatesA ra" and "wellFormed h0" and "changesOnly t h0 h"
    and "okDesc (length h0) d"
    and "(if dp then deepDescriptor rc ra h kw d else Inr (h, d)) = Inr (h1, d1)"
  shows "transferred dp h0 d d1"
proof (cases d)
  case (Accessor g s e c)
  with assms(6) show ?thesis by (auto simp: deepDescriptor_def split: if_splits)
next
  case (Data v w e c)
  show ?thesis
  proof (cases dp)
    case False
    with assms(6) Data show ?thesis by auto
  next
    case True
    with assms(6) Data obtain v1 where
      c: "cloneValue rc ra h kw (nestedOfDescriptor kw) v = Inr (h1, v1)" and d1: "d1 = Data v1 w e c"
      by (auto simp: deepDescriptor_def split: sum.splits)
    have n: "\<And>a. target (nestedOfDescriptor kw a) = None" by (simp add: nestedOfDescriptor_def)
    note res = cloneValue_result[OF assms(1,2) n c]
    have st: "isArray h v = isArray h0 v \<and> isObject h v = isObject h0 v"
    proof (cases v)
      case (Ref a)
      with assms(5) Data have a: "a < length h0" by (simp add: okVal_def)
      from wellFormed_chain[OF assms(3) a] obtain ch where "chainFrom (length h0) h0 a = Some ch" by blast
      from isObject_stable[OF assms(4) a this] isArray_stable[OF assms(4) a] Ref show ?thesis by simp
    qed (simp_all add: isArray_def isObject_def)
    from changesOnly_length[OF assms(4)] have "length h0 \<le> length h" .
    with res st d1 Data True show ?thesis by (auto split: if_splits)
  qed
qed

lemma copyDescriptors_transfers:
  assumes "allocatesC rc" and "allocatesA ra" and "wellFormed h0" and "s < length h0"
    and "chainFrom (length h0) h0 s = Some c" and "t \<notin> set c"
  shows "changesOnly t h0 h \<Longrightarrow> t < length h \<Longrightarrow> copyDescriptors rc ra h kw t s names = Inr h' \<Longrightarrow>
     \<forall>n \<in> set names. \<exists>d d'.
        (if inherited kw then getPropertyDescriptor h0 s n else ownDesc (h0 ! s) n) = Some d \<and>
        ownDesc (h' ! t) n = Some d' \<and> transferred (deep kw) h0 d d'"
proof (induction names arbitrary: h)
  case Nil
  then show ?case by simp
next
  case (Cons n names)
  let ?src = "\<lambda>m. if inherited kw then getPropertyDescriptor h0 s m else ownDesc (h0 ! s) m"
  note st = source_stable[OF assms(5,6) Cons.prems(1)]
  note th = Cons.prems(2)
  let ?cur = "if inherited kw then getPropertyDescriptor h s n else ownDesc (h ! s) n"
  have cur: "?cur = ?src n" using st(3)[of n] st(4)[of n] by simp
  from Cons.prems(3) obtain d where cd: "?cur = Some d" by (cases ?cur) simp_all
  with cur have sd: "?src n = Some d" by simp
  from Cons.prems(3) cd obtain h1 d1 where
    d: "(if deep kw then deepDescriptor rc ra h kw d else Inr (h, d)) = Inr (h1, d1)"
    by (cases "if deep kw then deepDescriptor rc ra h kw d else Inr (h, d)") auto
  from Cons.prems(3) cd d obtain h2 where
    p: "defineProperty h1 t n d1 = Inr h2"
    and r: "copyDescriptors rc ra h2 kw t s names = Inr h'"
    by (auto split: sum.splits)
  from sd have okd: "okDesc (length h0) d"
    using wellFormed_ownDesc[OF assms(3,4)] wellFormed_getPropertyDescriptor[OF assms(3,4)]
    by (auto split: if_splits)
  note tr = deepDescriptor_transferred[OF assms(1,2,3) Cons.prems(1) okd d]
  from d have e: "extends h h1"
    by (auto split: if_splits dest: deepDescriptor_frame[OF assms(1,2)])
  from th e have t1: "t < length h1" by (auto simp: extends_iff)
  from defineProperty_same[OF p t1] have own2: "ownDesc (h2 ! t) n = Some d1" .
  from defineProperty_length[OF p] t1 have t2: "t < length h2" by simp
  have c2: "changesOnly t h0 h2"
    using Cons.prems(1) e defineProperty_frame[OF p]
    by (blast intro: changesOnly_trans extends_changesOnly)
  note ih = Cons.IH[OF c2 t2 r]
  show ?case
  proof
    fix m assume m: "m \<in> set (n # names)"
    show "\<exists>d d'. ?src m = Some d \<and> ownDesc (h' ! t) m = Some d' \<and> transferred (deep kw) h0 d d'"
    proof (cases "m \<in> set names")
      case True
      with ih show ?thesis by blast
    next
      case False
      with m have mn: "m = n" by simp
      from copyDescriptors_other[OF assms(1,2) r t2, of n] False mn own2
      have "ownDesc (h' ! t) n = Some d1" by simp
      with sd tr mn show ?thesis by blast
    qed
  qed
qed

lemma transferred_fresh:
  assumes "transferred True h (Data v w e c) d'" and "isArray h v \<or> isObject h v"
  shows "\<exists>r. length h \<le> r \<and> d' = Data (Ref r) w e c"
proof (cases d')
  case (Data v' w' e' c')
  with assms show ?thesis by (cases v') auto
next
  case (Accessor g s e' c')
  with assms show ?thesis by auto
qed

text \<open>
  C3. A call of \<^verbatim>\<open>copy\<close> with \<^verbatim>\<open>descriptors\<close> set and one source that returns has
  defined on the target, under every name it read from the source (all own names, or
  with \<^verbatim>\<open>inherited\<close> the names \<^verbatim>\<open>getPropertyNames\<close> collects), the descriptor the
  source has there: an accessor descriptor is the same descriptor, with the same getter
  and setter, deep or not; a data descriptor keeps \<^verbatim>\<open>writable\<close>, \<^verbatim>\<open>enumerable\<close> and
  \<^verbatim>\<open>configurable\<close>, and keeps its value unless the copy is deep and the value is an
  array or an object, which is replaced by a new object. The target is an object of the
  store that is not on the prototype chain of the source.
\<close>

theorem descriptors_are_transferred:
  assumes "pureCalls iv" and "wellFormed h" and "s < length h"
    and "descriptors kwArgs" and "sources kwArgs = [s]"
    and "newTarget h kwArgs = (h1, t)" and "t < length h1" and "t \<notin> set (protoChain h s)"
    and "copy (Suc k) iv strict h kwArgs = Inr (h', r)"
  shows "r = t \<and>
     (\<forall>names. (if inherited kwArgs then \<exists>h2. getPropertyNames iv strict h1 s = Inr (h2, names)
                else names = ownNames (h ! s)) \<longrightarrow>
        (\<forall>n \<in> set names. \<exists>d d'.
           (if inherited kwArgs then getPropertyDescriptor h s n else ownDesc (h ! s) n) = Some d \<and>
           ownDesc (h' ! t) n = Some d' \<and> transferred (deep kwArgs) h d d'))"
proof -
  from copy_allocates[OF assms(1), of k strict]
  have ac: "allocatesC (\<lambda>h' kw'. copy k iv strict h' kw')"
    and aa: "allocatesA (\<lambda>h' a' kw'. copyArray k iv strict h' a' kw')" by simp_all
  let ?rc = "\<lambda>h' kw'. copy k iv strict h' kw'" and ?ra = "\<lambda>h' a' kw'. copyArray k iv strict h' a' kw'"
  from assms(5,6,9) have cs: "copySource ?rc ?ra iv strict h1 kwArgs t s = Inr h'" and r: "r = t"
    by (auto simp: copyBody_def split: sum.splits)
  from assms(6) have e1: "extends h h1"
    by (auto simp: newTarget_def alloc_def extends_iff nth_append split: if_splits option.splits)
  with assms(3) have s1: "h1 ! s = h ! s" by (simp add: extends_iff)
  from wellFormed_chain[OF assms(2,3)] obtain c where c: "chainFrom (length h) h s = Some c" by blast
  with assms(8) have tc: "t \<notin> set c" by (simp add: protoChain_def)
  from cs assms(4) obtain h2 names where
    n: "(if inherited kwArgs then getPropertyNames iv strict h1 s else Inr (h1, ownNames (h1 ! s))) = Inr (h2, names)"
    and cd: "copyDescriptors ?rc ?ra h2 kwArgs t s names = Inr h'"
    by (auto simp: copySource_def split: sum.splits)
  from n have e2: "extends h1 h2"
    by (auto split: if_splits dest: getPropertyNames_frame[OF assms(1)])
  from e1 e2 have ch: "changesOnly t h h2" by (blast intro: extends_trans extends_changesOnly)
  from e2 assms(7) have t2: "t < length h2" by (auto simp: extends_iff)
  note tr = copyDescriptors_transfers[OF ac aa assms(2,3) c tc ch t2 cd]
  have "\<And>names'. (if inherited kwArgs then \<exists>h2. getPropertyNames iv strict h1 s = Inr (h2, names')
                else names' = ownNames (h ! s)) \<Longrightarrow> names' = names"
    using n s1 by (auto split: if_splits)
  with tr r show ?thesis by blast
qed

theorem descriptors_are_transferred_witness:
  "pureCalls noCalls \<and> wellFormed describedStore \<and>
   (\<exists>h'. copy 2 noCalls False describedStore describedArgs = Inr (h', 6) \<and>
      ownDesc (h' ! 6) ''b'' = Some (Accessor (Ref 3) Undefined False False) \<and>
      ownDesc (h' ! 6) ''hidden'' = Some (Data (Num 4) False False False) \<and>
      (\<exists>r. 6 \<le> r \<and> ownDesc (h' ! 6) ''nested'' = Some (Data (Ref r) False False False)))"
proof -
  have p: "pureCalls noCalls" by (simp add: pureCalls_def noCalls_def)
  have w: "wellFormed describedStore" by code_simp
  have s: "5 < length describedStore" by code_simp
  have d: "descriptors describedArgs" and ss: "sources describedArgs = [5]"
    and i: "\<not> inherited describedArgs" and dp: "deep describedArgs"
    by (simp_all add: describedArgs_def)
  have nt: "newTarget describedStore describedArgs
     = (describedStore @ [newObject (Some ObjectPrototype)], 6)" by code_simp
  have t: "6 < length (describedStore @ [newObject (Some ObjectPrototype)])" by code_simp
  have nc: "6 \<notin> set (protoChain describedStore 5)" by code_simp
  have len: "length describedStore = 6" by code_simp
  obtain h' where c: "copy (Suc 1) noCalls False describedStore describedArgs = Inr (h', 6)"
  proof -
    have "copy 2 noCalls False describedStore describedArgs = Inr (describedStore @
       [\<lparr>proto = Some 0, kind = Ordinary, elems = [],
          props = [(''a'', Data (Num 1) True True True),
             (''b'', Accessor (Ref 3) Undefined False False),
             (''hidden'', Data (Num 4) False False False),
             (''nested'', Data (Ref 7) False False False)], extensible = True\<rparr>,
        \<lparr>proto = Some 0, kind = Ordinary, elems = [],
          props = [(''a'', Data (Num 5) True True True)], extensible = True\<rparr>], 6)"
      by code_simp
    then show ?thesis using that by (simp add: numeral_2_eq_2)
  qed
  note th = descriptors_are_transferred[OF p w s d ss nt t nc c, THEN conjunct2, rule_format,
      of "ownNames (describedStore ! 5)"]
  have names: "ownNames (describedStore ! 5) = [''a'', ''b'', ''hidden'', ''nested'']" by code_simp
  have db: "ownDesc (describedStore ! 5) ''b'' = Some (Accessor (Ref 3) Undefined False False)"
    and dh: "ownDesc (describedStore ! 5) ''hidden'' = Some (Data (Num 4) False False False)"
    and dn: "ownDesc (describedStore ! 5) ''nested'' = Some (Data (Ref 4) False False False)"
    by code_simp+
  have io: "isObject describedStore (Ref 4)" and na: "\<not> isArray describedStore (Num 4)"
    and no: "\<not> isObject describedStore (Num 4)" by code_simp+
  from th[of "''b''"] i names db
  have b: "ownDesc (h' ! 6) ''b'' = Some (Accessor (Ref 3) Undefined False False)" by auto
  from th[of "''hidden''"] i names dh na no
  have hd: "ownDesc (h' ! 6) ''hidden'' = Some (Data (Num 4) False False False)" by auto
  from th[of "''nested''"] i names dn dp obtain d' where
    d': "ownDesc (h' ! 6) ''nested'' = Some d'"
    "transferred True describedStore (Data (Ref 4) False False False) d'" by auto
  from transferred_fresh[OF d'(2)] io d'(1) len
  have n: "\<exists>r. 6 \<le> r \<and> ownDesc (h' ! 6) ''nested'' = Some (Data (Ref r) False False False)"
    by auto
  from c have c2: "copy 2 noCalls False describedStore describedArgs = Inr (h', 6)"
    by (simp add: numeral_2_eq_2)
  from p w c2 b hd n show ?thesis by blast
qed
section \<open>duplicate\<close>

lemma cloneValue_agree:
  assumes "agreeC rc rc'" and "agreeA ra ra'" and "descriptors kw" and "\<not> inherited kw"
    and "\<And>a. descriptors (nested a) \<and> \<not> inherited (nested a)"
  shows "cloneValue rc ra h kw nested v = cloneValue rc' ra' h kw nested v"
proof (cases v)
  case (Ref a)
  from assms(1,5) have "rc h (nested a) = rc' h (nested a)" by (simp add: agreeC_def)
  moreover from assms(2,3,4) have "ra h a kw = ra' h a kw" by (simp add: agreeA_def)
  ultimately show ?thesis using Ref by (simp add: cloneValue_def)
qed (simp_all add: cloneValue_def)

lemma copyItems_agree:
  assumes "agreeC rc rc'" and "agreeA ra ra'" and "descriptors kw" and "\<not> inherited kw"
  shows "copyItems rc ra h kw items = copyItems rc' ra' h kw items"
proof (induction items arbitrary: h)
  case Nil
  show ?case by simp
next
  case (Cons item items)
  have "cloneValue rc ra h kw (nestedOfArray kw) item = cloneValue rc' ra' h kw (nestedOfArray kw) item"
    by (rule cloneValue_agree[OF assms]) (simp add: nestedOfArray_def assms(3,4))
  with Cons show ?case by (simp split: sum.splits)
qed

lemma copyDescriptors_agree:
  assumes "agreeC rc rc'" and "agreeA ra ra'" and "descriptors kw" and "\<not> inherited kw"
  shows "copyDescriptors rc ra h kw t s names = copyDescriptors rc' ra' h kw t s names"
proof (induction names arbitrary: h)
  case Nil
  show ?case by simp
next
  case (Cons n names)
  have "\<And>v. cloneValue rc ra h kw (nestedOfDescriptor kw) v = cloneValue rc' ra' h kw (nestedOfDescriptor kw) v"
    by (rule cloneValue_agree[OF assms]) (simp add: nestedOfDescriptor_def assms(4))
  then have "\<And>d. deepDescriptor rc ra h kw d = deepDescriptor rc' ra' h kw d"
    by (simp add: deepDescriptor_def split: descriptor.splits)
  with Cons show ?case by (simp split: sum.splits option.splits)
qed

lemma copyBody_agree:
  assumes "agreeC rc rc'" and "agreeA ra ra'" and "descriptors kw" and "\<not> inherited kw"
  shows "copyBody rc ra iv strict h kw = copyBody rc' ra' iv' strict' h kw"
proof -
  have "\<And>h t ss. copySources rc ra iv strict h kw t ss = copySources rc' ra' iv' strict' h kw t ss"
  proof -
    fix h t ss
    show "copySources rc ra iv strict h kw t ss = copySources rc' ra' iv' strict' h kw t ss"
    proof (induction ss arbitrary: h)
      case Nil
      show ?case by simp
    next
      case (Cons s ss)
      have "copySource rc ra iv strict h kw t s = copySource rc' ra' iv' strict' h kw t s"
        using assms(3,4) copyDescriptors_agree[OF assms] by (simp add: copySource_def)
      with Cons show ?case by (simp split: sum.splits)
    qed
  qed
  then show ?thesis by (simp add: copyBody_def)
qed

lemma copy_agree:
  "agreeC (copy k iv strict) (copy k iv' strict') \<and> agreeA (copyArray k iv strict) (copyArray k iv' strict')"
proof (induction k)
  case 0
  show ?case by (simp add: agreeC_def agreeA_def)
next
  case (Suc k)
  then have c: "agreeC (\<lambda>h' kw'. copy k iv strict h' kw') (\<lambda>h' kw'. copy k iv' strict' h' kw')"
    and a: "agreeA (\<lambda>h' a' kw'. copyArray k iv strict h' a' kw') (\<lambda>h' a' kw'. copyArray k iv' strict' h' a' kw')"
    by simp_all
  have "agreeC (copy (Suc k) iv strict) (copy (Suc k) iv' strict')"
    unfolding agreeC_def using copyBody_agree[OF c a] by simp
  moreover have "agreeA (copyArray (Suc k) iv strict) (copyArray (Suc k) iv' strict')"
    unfolding agreeA_def using copyItems_agree[OF c a] by (simp add: copyArrayBody_def)
  ultimately show ?case by blast
qed

lemma duplicate_any_engine: "duplicate k iv strict h s = duplicate k noCalls False h s"
  using copy_agree[of k iv strict noCalls False] by (simp add: duplicate_def agreeC_def)

lemma pureCalls_noCalls: "pureCalls noCalls"
  by (simp add: pureCalls_def noCalls_def)

lemma defineProperty_props:
  "defineProperty h t n d = Inr h' \<Longrightarrow> t < length h \<Longrightarrow>
   props (h' ! t) = setDesc n d (props (h ! t)) \<and> sameShell (h ! t) (h' ! t)"
  by (auto simp: defineProperty_def putOwn_nth sameShell_def split: if_splits option.splits)

lemma copyDescriptors_names:
  assumes "allocatesC rc" and "allocatesA ra"
  shows "copyDescriptors rc ra h kw t s names = Inr h' \<Longrightarrow> t < length h \<Longrightarrow> distinct names \<Longrightarrow>
         set names \<inter> fst ` set (props (h ! t)) = {} \<Longrightarrow>
         map fst (props (h' ! t)) = map fst (props (h ! t)) @ names"
proof (induction names arbitrary: h)
  case Nil
  then show ?case by simp
next
  case (Cons n names)
  from Cons.prems(1) obtain d h1 d1 h2 where
    d: "(if deep kw then deepDescriptor rc ra h kw d else Inr (h, d)) = Inr (h1, d1)"
    and p: "defineProperty h1 t n d1 = Inr h2"
    and r: "copyDescriptors rc ra h2 kw t s names = Inr h'"
    by (auto split: option.splits sum.splits)
  from d have e: "extends h h1"
    by (auto split: if_splits dest: deepDescriptor_frame[OF assms])
  with Cons.prems(2) have t1: "h1 ! t = h ! t" "t < length h1"
    by (auto simp: extends_iff)
  from defineProperty_length[OF p] t1 have t2: "t < length h2" by simp
  from defineProperty_props[OF p t1(2)] t1 have p2: "props (h2 ! t) = setDesc n d1 (props (h ! t))"
    by simp
  from Cons.prems(4) have nn: "n \<notin> fst ` set (props (h ! t))" by auto
  with p2 have f2: "map fst (props (h2 ! t)) = map fst (props (h ! t)) @ [n]"
    by (simp add: fst_setDesc)
  then have "fst ` set (props (h2 ! t)) = fst ` set (props (h ! t)) \<union> {n}"
    by (metis (no_types, lifting) Un_insert_right list.set(1) list.set(2) set_append set_map sup_bot.right_neutral)
  with Cons.prems(3,4) have "set names \<inter> fst ` set (props (h2 ! t)) = {}" by auto
  from Cons.IH[OF r t2 _ this] Cons.prems(3) f2 show ?case by simp
qed



subsection \<open>When duplicate returns\<close>

lemma ownNames_ownDesc: "n \<in> set (ownNames ob) \<Longrightarrow> \<exists>d. ownDesc ob n = Some d"
proof -
  assume n: "n \<in> set (ownNames ob)"
  have pr: "n \<in> fst ` set (props ob) \<Longrightarrow> \<exists>d. map_of (props ob) n = Some d"
    by (metis domD dom_map_of_conv_image_fst)
  show ?thesis
  proof (cases "kind ob = ArrayObj")
    case True
    show ?thesis
    proof (cases "find (\<lambda>i. indexName i = n) [0..<length (elems ob)]")
      case None
      then have "n \<notin> set (map indexName [0..<length (elems ob)])"
        by (auto simp: find_None_iff)
      with n True have "n = ''length'' \<or> n \<in> fst ` set (props ob)" by (auto simp: ownNames_def)
      with None True pr show ?thesis by (auto simp: ownDesc_def)
    next
      case (Some i)
      with True show ?thesis by (simp add: ownDesc_def)
    qed
  next
    case False
    with n pr show ?thesis by (auto simp: ownNames_def ownDesc_def)
  qed
qed

lemma cloneable_other: "\<not> isArray h v \<Longrightarrow> \<not> isObject h v \<Longrightarrow> cloneable j h v"
  by (cases j; cases v) simp_all

lemma isObject_not_isArray: "isObject h v \<Longrightarrow> \<not> isArray h v"
  by (cases v) (simp_all add: isObject_def)

lemma value_stable:
  assumes "wellFormed h0" and "extends h0 h" and "okVal (length h0) v"
  shows "isArray h v = isArray h0 v" and "isObject h v = isObject h0 v"
proof -
  have "isArray h v = isArray h0 v \<and> isObject h v = isObject h0 v"
  proof (cases v)
    case (Ref a)
    with assms(3) have a: "a < length h0" by (simp add: okVal_def)
    from wellFormed_chain[OF assms(1) a] obtain ch where "chainFrom (length h0) h0 a = Some ch" by blast
    from isObject_stable[OF extends_changesOnly[OF assms(2)] a this]
      isArray_stable[OF extends_changesOnly[OF assms(2)] a] Ref show ?thesis by simp
  qed (simp_all add: isArray_def isObject_def)
  then show "isArray h v = isArray h0 v" and "isObject h v = isObject h0 v" by simp_all
qed

lemma onlyStack_Inl: "onlyStack (Inl e) \<longleftrightarrow> e = StackExhausted"
  by (simp add: onlyStack_def)

lemma onlyStack_Inr [simp]: "onlyStack (Inr x)"
  by (simp add: onlyStack_def)

lemma cloneValue_dup:
  assumes "clonesC h0 j rc" and "clonesA h0 j ra" and "wellFormed h0" and "extends h0 h"
    and "okVal (length h0) v" and "dupFlags kw"
    and "\<And>a. dupFlags (nested a) \<and> target (nested a) = None \<and> sources (nested a) = [a]"
  shows "onlyStack (cloneValue rc ra h kw nested v) \<and>
         (cloneable j h0 v \<longrightarrow> (\<exists>x. cloneValue rc ra h kw nested v = Inr x))"
proof (cases v)
  case (Ref a)
  with assms(5) have a: "a < length h0" by (simp add: okVal_def)
  note st = value_stable[OF assms(3,4,5)]
  show ?thesis
  proof (cases "isArray h0 v")
    case True
    with assms(2,4,6) a Ref have "onlyStack (ra h a kw) \<and> (cloneable j h0 v \<longrightarrow> (\<exists>x. ra h a kw = Inr x))"
      unfolding clonesA_def by blast
    with True st Ref show ?thesis
      by (cases "ra h a kw") (auto simp: cloneValue_def onlyStack_def)
  next
    case False
    show ?thesis
    proof (cases "isObject h0 v")
      case True
      with assms(1,4,7) a Ref have "onlyStack (rc h (nested a)) \<and> (cloneable j h0 v \<longrightarrow> (\<exists>x. rc h (nested a) = Inr x))"
        unfolding clonesC_def by blast
      with True False st Ref show ?thesis
        by (cases "rc h (nested a)") (auto simp: cloneValue_def onlyStack_def)
    next
      case nob: False
      with False st Ref show ?thesis by (simp add: cloneValue_def)
    qed
  qed
qed (simp_all add: cloneValue_def)

lemma copyItems_dup:
  assumes "clonesC h0 j rc" and "clonesA h0 j ra" and "allocatesC rc" and "allocatesA ra"
    and "wellFormed h0" and "dupFlags kw"
  shows "extends h0 h \<Longrightarrow> list_all (okVal (length h0)) items \<Longrightarrow>
         onlyStack (copyItems rc ra h kw items) \<and>
         (list_all (cloneable j h0) items \<longrightarrow> (\<exists>x. copyItems rc ra h kw items = Inr x))"
proof (induction items arbitrary: h)
  case Nil
  then show ?case by simp
next
  case (Cons item items)
  have nested: "\<And>a. dupFlags (nestedOfArray kw a) \<and> target (nestedOfArray kw a) = None \<and> sources (nestedOfArray kw a) = [a]"
    using assms(6) by (simp add: nestedOfArray_def dupFlags_def)
  from Cons.prems(2) have ok: "okVal (length h0) item" "list_all (okVal (length h0)) items" by simp_all
  note cv = cloneValue_dup[OF assms(1,2,5) Cons.prems(1) ok(1) assms(6) nested]
  show ?case
  proof (cases "cloneValue rc ra h kw (nestedOfArray kw) item")
    case (Inl e)
    with cv show ?thesis by (auto simp: onlyStack_def)
  next
    case (Inr x)
    obtain h1 v1 where x: "x = (h1, v1)" by (cases x)
    have "\<And>a. target (nestedOfArray kw a) = None" by (simp add: nestedOfArray_def)
    from cloneValue_frame[OF assms(3,4) this Inr[unfolded x]] Cons.prems(1)
    have "extends h0 h1" by (blast intro: extends_trans)
    from Cons.IH[OF this ok(2)] Inr x show ?thesis
      by (cases "copyItems rc ra h1 kw items") (auto simp: onlyStack_def)
  qed
qed

lemma copyArrayBody_dup:
  assumes "clonesC h0 j rc" and "clonesA h0 j ra" and "allocatesC rc" and "allocatesA ra"
    and "wellFormed h0" and "dupFlags kw" and "extends h0 h" and "a < length h0"
  shows "onlyStack (copyArrayBody rc ra h a kw) \<and>
         (list_all (cloneable j h0) (elems (h0 ! a)) \<longrightarrow> (\<exists>x. copyArrayBody rc ra h a kw = Inr x))"
proof -
  from assms(7,8) have e: "elems (h ! a) = elems (h0 ! a)" by (simp add: extends_iff)
  from wellFormed_okObj[OF assms(5,8)] have "list_all (okVal (length h0)) (elems (h0 ! a))"
    by (simp add: okObj_def)
  from copyItems_dup[OF assms(1-6) assms(7) this] e show ?thesis
    by (cases "copyItems rc ra h kw (elems (h0 ! a))")
       (auto simp: copyArrayBody_def onlyStack_def alloc_def)
qed

lemma ownValues_mem:
  "n \<in> set (ownNames ob) \<Longrightarrow> ownDesc ob n = Some (Data v w e c) \<Longrightarrow> v \<in> set (ownValues ob)"
  by (force simp: ownValues_def)

lemma defineProperty_fresh:
  assumes "t < length h" and "kind (h ! t) = Ordinary" and "extensible (h ! t)"
    and "n \<notin> fst ` set (props (h ! t))"
  shows "defineProperty h t n d = Inr (putOwn h t n d)"
proof -
  from assms(2) have ne: "\<not> exotic (h ! t) n" by (simp add: exotic_def)
  from assms(4) have "map_of (props (h ! t)) n = None" by (simp add: map_of_eq_None_iff)
  with ownDesc_plain[OF ne] assms(3) ne show ?thesis by (simp add: defineProperty_def)
qed

lemma copyDescriptors_dup:
  assumes "clonesC h0 j rc" and "clonesA h0 j ra" and "allocatesC rc" and "allocatesA ra"
    and "wellFormed h0" and "dupFlags kw" and "s < length h0" and "length h0 \<le> t"
  shows "extends h0 h \<Longrightarrow> t < length h \<Longrightarrow> kind (h ! t) = Ordinary \<Longrightarrow> extensible (h ! t) \<Longrightarrow>
     distinct names \<Longrightarrow> set names \<subseteq> set (ownNames (h0 ! s)) \<Longrightarrow>
     set names \<inter> fst ` set (props (h ! t)) = {} \<Longrightarrow>
     onlyStack (copyDescriptors rc ra h kw t s names) \<and>
     (list_all (cloneable j h0) (ownValues (h0 ! s)) \<longrightarrow> (\<exists>x. copyDescriptors rc ra h kw t s names = Inr x))"
proof (induction names arbitrary: h)
  case Nil
  then show ?case by simp
next
  case (Cons n names)
  from Cons.prems(1) assms(7) have hs: "h ! s = h0 ! s" by (simp add: extends_iff)
  from Cons.prems(6) have nin: "n \<in> set (ownNames (h0 ! s))" by simp
  from ownNames_ownDesc[OF this] obtain d where d: "ownDesc (h0 ! s) n = Some d" by blast
  from wellFormed_ownDesc[OF assms(5,7) d] have okd: "okDesc (length h0) d" .
  have ni: "\<not> inherited kw" and dp: "deep kw" using assms(6) by (simp_all add: dupFlags_def)
  have nested: "\<And>a. dupFlags (nestedOfDescriptor kw a) \<and> target (nestedOfDescriptor kw a) = None
      \<and> sources (nestedOfDescriptor kw a) = [a]"
    using assms(6) by (simp add: nestedOfDescriptor_def dupFlags_def)
  have dd: "onlyStack (deepDescriptor rc ra h kw d) \<and>
     (list_all (cloneable j h0) (ownValues (h0 ! s)) \<longrightarrow> (\<exists>x. deepDescriptor rc ra h kw d = Inr x))"
  proof (cases d)
    case (Data v w e c)
    with okd have okv: "okVal (length h0) v" by simp
    note cv = cloneValue_dup[OF assms(1,2,5) Cons.prems(1) okv assms(6) nested]
    from ownValues_mem[OF nin d[unfolded Data]]
    have "list_all (cloneable j h0) (ownValues (h0 ! s)) \<Longrightarrow> cloneable j h0 v"
      by (simp add: list_all_iff)
    with cv Data show ?thesis
      by (cases "cloneValue rc ra h kw (nestedOfDescriptor kw) v")
         (auto simp: deepDescriptor_def onlyStack_def)
  next
    case (Accessor g st e c)
    then show ?thesis by (simp add: deepDescriptor_def)
  qed
  show ?case
  proof (cases "deepDescriptor rc ra h kw d")
    case (Inl e)
    with dd d hs ni dp show ?thesis by (auto simp: onlyStack_def)
  next
    case (Inr x)
    obtain h1 d1 where x: "x = (h1, d1)" by (cases x)
    from deepDescriptor_frame[OF assms(3,4) Inr[unfolded x]] have e1: "extends h h1" .
    with Cons.prems(2) have t1: "t < length h1" "h1 ! t = h ! t" by (auto simp: extends_iff)
    from Cons.prems(7) have "n \<notin> fst ` set (props (h ! t))" by auto
    with t1 Cons.prems(3,4) have dp1: "defineProperty h1 t n d1 = Inr (putOwn h1 t n d1)"
      by (simp add: defineProperty_fresh)
    let ?h2 = "putOwn h1 t n d1"
    have e2: "extends h0 ?h2"
      using Cons.prems(1) e1 assms(8) by (auto simp: extends_iff putOwn_def)
    have t2: "t < length ?h2" using t1 by simp
    have k2: "kind (?h2 ! t) = Ordinary" "extensible (?h2 ! t)"
      using t1 Cons.prems(3,4) by (simp_all add: putOwn_nth)
    have p2: "props (?h2 ! t) = setDesc n d1 (props (h ! t))" using t1 by (simp add: putOwn_nth)
    from Cons.prems(5,7) have "set names \<inter> fst ` set (setDesc n d1 (props (h ! t))) = {}"
      using fst_setDesc[of n d1 "props (h ! t)"]
      by (metis (no_types, lifting) Int_insert_left Un_insert_right disjoint_insert(2) distinct.simps(2)
          list.set(1) list.set(2) list.simps(15) set_append set_map sup_bot.right_neutral Int_commute)
    with p2 have dj: "set names \<inter> fst ` set (props (?h2 ! t)) = {}" by simp
    from Cons.prems(5,6) have "distinct names" "set names \<subseteq> set (ownNames (h0 ! s))" by simp_all
    from Cons.IH[OF e2 t2 k2 this dj] Inr x dp1 d hs ni dp show ?thesis by simp
  qed
qed

lemma copyBody_dup:
  assumes "clonesC h0 j rc" and "clonesA h0 j ra" and "allocatesC rc" and "allocatesA ra"
    and "wellFormed h0" and "dupFlags kw" and "target kw = None" and "sources kw = [s]"
    and "s < length h0" and "extends h0 h"
  shows "onlyStack (copyBody rc ra iv strict h kw) \<and>
     (list_all (cloneable j h0) (ownValues (h0 ! s)) \<longrightarrow> (\<exists>x. copyBody rc ra iv strict h kw = Inr x))"
proof -
  let ?h1 = "h @ [newObject (proto (h ! s))]"
  have fl: "descriptors kw" "\<not> inherited kw" "assignPrototype kw" using assms(6) by (simp_all add: dupFlags_def)
  have nt: "newTarget h kw = (?h1, length h)" using fl assms(8) by (simp add: newTarget_def alloc_def)
  from assms(9,10) have sl: "s < length h" "h ! s = h0 ! s" by (auto simp: extends_iff)
  then have s1: "?h1 ! s = h0 ! s" by (simp add: nth_append)
  have e1: "extends h0 ?h1" using assms(10) by (auto simp: extends_iff nth_append)
  have t: "length h0 \<le> length h" using assms(10) by (simp add: extends_iff)
  from wellFormed_okObj[OF assms(5,9)] have dn: "distinct (ownNames (h0 ! s))" by (simp add: okObj_def)
  have "onlyStack (copyDescriptors rc ra ?h1 kw (length h) s (ownNames (h0 ! s))) \<and>
     (list_all (cloneable j h0) (ownValues (h0 ! s)) \<longrightarrow>
       (\<exists>x. copyDescriptors rc ra ?h1 kw (length h) s (ownNames (h0 ! s)) = Inr x))"
    by (rule copyDescriptors_dup[OF assms(1-6) assms(9) t e1]) (simp_all add: newObject_def dn)
  then show ?thesis using nt s1 fl assms(8)
    by (cases "copyDescriptors rc ra ?h1 kw (length h) s (ownNames (h0 ! s))")
       (auto simp: copyBody_def copySource_def onlyStack_def)
qed

lemma copy_clones:
  assumes "wellFormed h0"
  shows "clonesC h0 k (copy k noCalls False) \<and> clonesA h0 k (copyArray k noCalls False)"
proof (induction k)
  case 0
  show ?case by (auto simp: clonesC_def clonesA_def onlyStack_def)
next
  case (Suc k)
  let ?rc = "\<lambda>h' kw'. copy k noCalls False h' kw'" and ?ra = "\<lambda>h' a' kw'. copyArray k noCalls False h' a' kw'"
  from Suc have c: "clonesC h0 k ?rc" and a: "clonesA h0 k ?ra" by simp_all
  from copy_allocates[OF pureCalls_noCalls, of k False]
  have ac: "allocatesC ?rc" and aa: "allocatesA ?ra" by simp_all
  have "clonesC h0 (Suc k) (copy (Suc k) noCalls False)"
    unfolding clonesC_def
  proof (intro allI impI)
    fix h kw s
    assume e: "extends h0 h" and f: "dupFlags kw" and t: "target kw = None" and ss: "sources kw = [s]"
      and s: "s < length h0" and io: "isObject h0 (Ref s)"
    from io isObject_not_isArray[OF io]
    have "cloneable (Suc k) h0 (Ref s) = list_all (cloneable k h0) (ownValues (h0 ! s))" by simp
    with copyBody_dup[OF c a ac aa assms f t ss s e, of noCalls False]
    show "onlyStack (copy (Suc k) noCalls False h kw) \<and>
       (cloneable (Suc k) h0 (Ref s) \<longrightarrow> (\<exists>x. copy (Suc k) noCalls False h kw = Inr x))" by simp
  qed
  moreover have "clonesA h0 (Suc k) (copyArray (Suc k) noCalls False)"
    unfolding clonesA_def
  proof (intro allI impI)
    fix h kw arr
    assume e: "extends h0 h" and f: "dupFlags kw" and s: "arr < length h0" and ia: "isArray h0 (Ref arr)"
    then have "cloneable (Suc k) h0 (Ref arr) = list_all (cloneable k h0) (elems (h0 ! arr))" by simp
    with copyArrayBody_dup[OF c a ac aa assms f e s]
    show "onlyStack (copyArray (Suc k) noCalls False h arr kw) \<and>
       (cloneable (Suc k) h0 (Ref arr) \<longrightarrow> (\<exists>x. copyArray (Suc k) noCalls False h arr kw = Inr x))" by simp
  qed
  ultimately show ?case by blast
qed

lemma duplicate_total:
  assumes "wellFormed h" and "s < length h"
  shows "onlyStack (duplicate k iv strict h s)"
    and "list_all (cloneable k h) (ownValues (h ! s)) \<Longrightarrow> \<exists>x. duplicate (Suc k) iv strict h s = Inr x"
proof -
  let ?kw = "\<lparr>deep = True, descriptors = True, inherited = False,
         assignPrototype = True, target = None, sources = [s]\<rparr>"
  have f: "dupFlags ?kw" "target ?kw = None" "sources ?kw = [s]" by (simp_all add: dupFlags_def)
  have body: "\<And>j. onlyStack (copy (Suc j) noCalls False h ?kw) \<and>
     (list_all (cloneable j h) (ownValues (h ! s)) \<longrightarrow> (\<exists>x. copy (Suc j) noCalls False h ?kw = Inr x))"
  proof -
    fix j
    let ?rc = "\<lambda>h' kw'. copy j noCalls False h' kw'" and ?ra = "\<lambda>h' a' kw'. copyArray j noCalls False h' a' kw'"
    from copy_clones[OF assms(1), of j] have c: "clonesC h j ?rc" and a: "clonesA h j ?ra" by simp_all
    from copy_allocates[OF pureCalls_noCalls, of j False]
    have ac: "allocatesC ?rc" and aa: "allocatesA ?ra" by simp_all
    from copyBody_dup[OF c a ac aa assms(1) f assms(2) extends_refl, of noCalls False]
    show "onlyStack (copy (Suc j) noCalls False h ?kw) \<and>
     (list_all (cloneable j h) (ownValues (h ! s)) \<longrightarrow> (\<exists>x. copy (Suc j) noCalls False h ?kw = Inr x))"
      by simp
  qed
  have d: "\<And>j. duplicate j iv strict h s = copy j noCalls False h ?kw"
    using duplicate_any_engine[of _ iv strict h s] by (simp add: duplicate_def)
  show "onlyStack (duplicate k iv strict h s)"
  proof (cases k)
    case 0
    then show ?thesis by (simp add: d onlyStack_def)
  next
    case (Suc j)
    with body[of j] show ?thesis by (simp only: d)
  qed
  assume "list_all (cloneable k h) (ownValues (h ! s))"
  with body[of k] show "\<exists>x. duplicate (Suc k) iv strict h s = Inr x" by (simp only: d)
qed

subsection \<open>An object that contains itself\<close>

lemma selfStore_facts:
  "wellFormed selfStore" "(3::nat) < length selfStore"
  "ownNames (selfStore ! 3) = [''self'']"
  "ownDesc (selfStore ! 3) ''self'' = Some (Data (Ref 3) True True True)"
  "isObject selfStore (Ref 3)" "\<not> isArray selfStore (Ref 3)"
  by code_simp+

lemma self_never_returns:
  "extends selfStore h \<Longrightarrow>
   copy k noCalls False h \<lparr>deep = True, descriptors = True, inherited = False,
         assignPrototype = True, target = None, sources = [3]\<rparr> = Inl StackExhausted"
proof (induction k arbitrary: h)
  case 0
  show ?case by simp
next
  case (Suc k)
  let ?kw = "\<lparr>deep = True, descriptors = True, inherited = False,
         assignPrototype = True, target = None, sources = [3]\<rparr>"
  let ?h1 = "h @ [newObject (proto (h ! 3))]"
  from Suc.prems have e1: "extends selfStore ?h1" by (auto simp: extends_iff nth_append)
  with selfStore_facts(2) have s1: "?h1 ! 3 = selfStore ! 3" by (simp add: extends_iff)
  have ok: "okVal (length selfStore) (Ref 3)" using selfStore_facts(2) by (simp add: okVal_def)
  from value_stable[OF selfStore_facts(1) e1 ok] selfStore_facts(5,6)
  have io: "isObject ?h1 (Ref 3)" "\<not> isArray ?h1 (Ref 3)" by simp_all
  have nd: "nestedOfDescriptor ?kw 3 = ?kw" by (simp add: nestedOfDescriptor_def)
  from Suc.IH[OF e1] have "copy k noCalls False ?h1 ?kw = Inl StackExhausted" .
  with io nd have "cloneValue (\<lambda>h' kw'. copy k noCalls False h' kw') (\<lambda>h' a' kw'. copyArray k noCalls False h' a' kw')
      ?h1 ?kw (nestedOfDescriptor ?kw) (Ref 3) = Inl StackExhausted"
    by (simp add: cloneValue_def)
  then show ?case using s1 selfStore_facts(3,4)
    by (simp add: copyBody_def newTarget_def alloc_def copySource_def deepDescriptor_def)
qed

lemma self_duplicate: "duplicate k iv strict selfStore 3 = Inl StackExhausted"
  using self_never_returns[OF extends_refl, of k] duplicate_any_engine[of k iv strict selfStore 3]
  by (simp add: duplicate_def)
section \<open>getPropertyNames\<close>

lemma firstSeen_append:
  "firstSeen seen (xs @ ys) = firstSeen seen xs @ firstSeen (seen @ firstSeen seen xs) ys"
  by (induction xs arbitrary: seen) simp_all

lemma set_firstSeen: "set (firstSeen seen xs) = set xs - set seen"
  by (induction xs arbitrary: seen) auto

lemma distinct_firstSeen: "distinct (firstSeen seen xs)"
  by (induction xs arbitrary: seen) (auto simp: set_firstSeen)

lemma chainFrom_length: "chainFrom k h a = Some c \<Longrightarrow> length c \<le> k"
proof (induction k arbitrary: a c)
  case 0
  then show ?case by simp
next
  case (Suc k)
  then show ?case by (fastforce split: if_splits option.splits)
qed

lemma setDesc_new: "n \<notin> fst ` set ps \<Longrightarrow> setDesc n d ps = ps @ [(n, d)]"
  by (induction ps) auto

lemma nameSet_chain:
  assumes "0 < length h" and "proto (h ! ObjectPrototype) = None"
  shows "protoChain (h @ [nameSet names]) (length h) = [length h, ObjectPrototype]"
proof -
  let ?h' = "h @ [nameSet names]"
  from assms(1) obtain m where m: "length h = Suc m" by (cases "length h") auto
  have z: "ObjectPrototype < length h" using assms(1) by (simp add: ObjectPrototype_def)
  then have r: "chainFrom (Suc m) ?h' ObjectPrototype = Some [ObjectPrototype]"
    using assms(2) by (simp add: nth_append)
  have "chainFrom (Suc (Suc m)) ?h' (length h)
      = map_option ((#) (length h)) (chainFrom (Suc m) ?h' ObjectPrototype)"
    by (subst chainFrom.simps(2)) (simp add: nameSet_def del: chainFrom.simps)
  with r have "chainFrom (length ?h') ?h' (length h) = Some [length h, ObjectPrototype]"
    by (simp add: m del: chainFrom.simps)
  then show ?thesis by (simp only: protoChain_def option.case)
qed

lemma nameSet_own:
  "ownDesc (nameSet names) n = (if n \<in> set names then Some (Data (Bool True) True True True) else None)"
proof -
  have "map_of (map (\<lambda>n. (n, Data (Bool True) True True True)) names) n
      = (if n \<in> set names then Some (Data (Bool True) True True True) else None)"
    by (induction names) auto
  then show ?thesis by (simp add: ownDesc_def nameSet_def)
qed

lemma nameSet_find:
  assumes "0 < length h" and "proto (h ! ObjectPrototype) = None"
  shows "findDesc (h @ [nameSet names]) (protoChain (h @ [nameSet names]) (length h)) n
     = (if n \<in> set names then Some (Data (Bool True) True True True)
        else ownDesc (h ! ObjectPrototype) n)"
proof -
  have z: "ObjectPrototype < length h" using assms(1) by (simp add: ObjectPrototype_def)
  show ?thesis
    by (simp add: nameSet_chain[OF assms] nameSet_own nth_append z split: option.splits)
qed

lemma nameSet_Get_seen:
  assumes "0 < length h" and "proto (h ! ObjectPrototype) = None" and "n \<in> set names"
  shows "Get iv (h @ [nameSet names]) (length h) n = Inr (h @ [nameSet names], Bool True)"
  using assms by (simp add: Get_def nameSet_find)

lemma nameSet_Get_new:
  assumes "0 < length h" and "proto (h ! ObjectPrototype) = None" and "n \<notin> set names"
    and "rootFree h n"
  shows "\<exists>v. Get iv (h @ [nameSet names]) (length h) n = Inr (h @ [nameSet names], v) \<and> v \<noteq> Bool True"
  using assms
  by (auto simp: Get_def nameSet_find rootFree_def split: option.splits descriptor.splits)

lemma nameSet_put:
  assumes "n \<notin> set names"
  shows "putOwn (h @ [nameSet names]) (length h) n (Data (Bool True) True True True)
     = h @ [nameSet (names @ [n])]"
proof -
  from assms have "n \<notin> fst ` set (map (\<lambda>n. (n, Data (Bool True) True True True)) names)"
    by (auto simp: image_iff)
  from setDesc_new[OF this] show ?thesis by (simp add: putOwn_def nameSet_def)
qed

lemma nameSet_Put_new:
  assumes "0 < length h" and "proto (h ! ObjectPrototype) = None" and "n \<notin> set names"
    and "rootFree h n"
  shows "Put iv strict (h @ [nameSet names]) (length h) n (Bool True) = Inr (h @ [nameSet (names @ [n])])"
proof -
  have ne: "\<not> exotic ((h @ [nameSet names]) ! length h) n" by (simp add: exotic_def nameSet_def)
  have st: "storeOwn strict (h @ [nameSet names]) (length h) n (Bool True) = Inr (h @ [nameSet (names @ [n])])"
    using assms(3) by (simp add: storeOwn_def nameSet_own nameSet_put) (simp add: nameSet_def)
  from assms ne st show ?thesis
    by (auto simp: Put_def nameSet_find rootFree_def split: option.splits descriptor.splits)
qed

lemma namesOfLevel_firstSeen:
  assumes "0 < length h" and "proto (h ! ObjectPrototype) = None"
  shows "\<forall>n \<in> set ns. rootFree h n \<Longrightarrow>
     namesOfLevel iv strict (length h) (h @ [nameSet names]) names ns
       = Inr (h @ [nameSet (names @ firstSeen names ns)], names @ firstSeen names ns)"
proof (induction ns arbitrary: names)
  case Nil
  show ?case by simp
next
  case (Cons n ns)
  show ?case
  proof (cases "n \<in> set names")
    case True
    with Cons nameSet_Get_seen[OF assms True, of iv] show ?thesis by simp
  next
    case False
    from Cons.prems have rf: "rootFree h n" by simp
    from nameSet_Get_new[OF assms False rf, of iv] obtain v where
      g: "Get iv (h @ [nameSet names]) (length h) n = Inr (h @ [nameSet names], v)" "v \<noteq> Bool True"
      by blast
    from Cons.IH[of "names @ [n]"] Cons.prems
    have "namesOfLevel iv strict (length h) (h @ [nameSet (names @ [n])]) (names @ [n]) ns
       = Inr (h @ [nameSet (names @ [n] @ firstSeen (names @ [n]) ns)], names @ [n] @ firstSeen (names @ [n]) ns)"
      by simp
    with g nameSet_Put_new[OF assms False rf, of iv strict] False show ?thesis by simp
  qed
qed

lemma walkPrototypes_levels:
  assumes "0 < length h" and "proto (h ! ObjectPrototype) = None"
  shows "chainFrom k0 h ob = Some c \<Longrightarrow> length c \<le> k \<Longrightarrow>
     \<forall>l \<in> set (walked c). \<forall>n \<in> set (ownNames (h ! l)). rootFree h n \<Longrightarrow>
     walkPrototypes k iv strict (length h) (h @ [nameSet names]) names ob
       = Inr (h @ [nameSet (names @ firstSeen names (concat (map (\<lambda>l. ownNames (h ! l)) (walked c))))],
              names @ firstSeen names (concat (map (\<lambda>l. ownNames (h ! l)) (walked c))))"
proof (induction k0 arbitrary: ob c k names)
  case 0
  then show ?case by simp
next
  case (Suc k0)
  from Suc.prems(1) have ob: "ob < length h" by (auto split: if_splits)
  from chainFrom_hd[OF Suc.prems(1)] obtain c1 where c: "c = ob # c1" by blast
  with Suc.prems(2) obtain j where k: "k = Suc j" "length c1 \<le> j" by (cases k) auto
  let ?own = "ownNames (h ! ob)"
  let ?n1 = "names @ firstSeen names ?own"
  from Suc.prems(3) c have rf: "\<forall>n \<in> set ?own. rootFree h n" by (simp add: walked_def)
  from namesOfLevel_firstSeen[OF assms rf, of iv strict names] ob
  have lvl: "namesOfLevel iv strict (length h) (h @ [nameSet names]) names (ownNames ((h @ [nameSet names]) ! ob))
       = Inr (h @ [nameSet ?n1], ?n1)" by (simp add: nth_append)
  have pr: "proto ((h @ [nameSet ?n1]) ! ob) = proto (h ! ob)" using ob by (simp add: nth_append)
  show ?case
  proof (cases "proto (h ! ob)")
    case None
    with Suc.prems(1) ob c have "c1 = []" by auto
    with c lvl pr None k show ?thesis by (simp add: walked_def)
  next
    case (Some p)
    with Suc.prems(1) ob c have c1: "chainFrom k0 h p = Some c1" by auto
    from chainFrom_hd[OF c1] obtain c2 where c2: "c1 = p # c2" by blast
    show ?thesis
    proof (cases "p = ObjectPrototype")
      case True
      with c c2 have "walked c = [ob]" by (simp add: walked_def)
      with lvl pr Some True k show ?thesis by simp
    next
      case False
      with c c2 have w: "walked c = ob # walked c1" by (simp add: walked_def)
      with Suc.prems(3) have rf1: "\<forall>l \<in> set (walked c1). \<forall>n \<in> set (ownNames (h ! l)). rootFree h n"
        by simp
      from Suc.IH[OF c1 k(2) rf1, of ?n1] lvl pr Some False k w show ?thesis
        by (simp add: firstSeen_append)
    qed
  qed
qed

lemma getPropertyNames_firstSeen:
  assumes "wellFormed h" and "ob < length h" and "\<forall>n \<in> set (walkedNames h ob). rootFree h n"
  shows "getPropertyNames iv strict h ob
     = Inr (h @ [nameSet (firstSeen [] (walkedNames h ob))], firstSeen [] (walkedNames h ob))"
proof -
  from wellFormed_chain[OF assms(1,2)] obtain c where c: "chainFrom (length h) h ob = Some c" by blast
  then have pc: "protoChain h ob = c" by (simp add: protoChain_def)
  from assms(1) have root: "0 < length h" "proto (h ! ObjectPrototype) = None"
    by (auto simp: wellFormed_def RegExpPrototype_def)
  from chainFrom_length[OF c] have len: "length c \<le> Suc (length h)" by simp
  from assms(3) pc have rf: "\<forall>l \<in> set (walked c). \<forall>n \<in> set (ownNames (h ! l)). rootFree h n"
    by (auto simp: walkedNames_def)
  have ns: "nameSet [] = newObject (Some ObjectPrototype)" by (simp add: nameSet_def newObject_def)
  from walkPrototypes_levels[OF root c len rf, of iv strict "[]"] pc ns show ?thesis
    by (simp add: getPropertyNames_def alloc_def walkedNames_def del: walkPrototypes.simps)
qed

text \<open>
  C6: the code does not do what the claim says. \<^verbatim>\<open>setOfNames\<close> is an object literal,
  so its prototype is \<^verbatim>\<open>Object.prototype\<close>, and reading or assigning \<^verbatim>\<open>setOfNames[name]\<close>
  goes through the accessor \<^verbatim>\<open>__proto__\<close> when that is the name: the assignment of
  \<^verbatim>\<open>true\<close> is ignored by the setter, and the test \<^verbatim>\<open>setOfNames[name] !== true\<close> succeeds
  again at the next level. For \<open>o2\<close> of \<open>protoKeyStore\<close>, whose own property \<^verbatim>\<open>__proto__\<close>
  shadows the one of its prototype \<open>o1\<close>, the name is returned twice. (For the names
  that are free on \<^verbatim>\<open>Object.prototype\<close> the claim holds: \<open>getPropertyNames_firstSeen\<close>.)
\<close>

theorem getPropertyNames_repeats_proto_key:
  "getPropertyNames protoCalls False protoKeyStore 6
     = Inr (protoKeyStore @ [newObject (Some ObjectPrototype)], [''__proto__'', ''__proto__''])"
  by code_simp
section \<open>Failures\<close>




section \<open>Assignments and the properties a copy carries\<close>

lemma findDesc_head:
  "findDesc h (t # c1) n = (case ownDesc (h ! t) n of Some d \<Rightarrow> Some d | None \<Rightarrow> findDesc h c1 n)"
  by simp

lemma Put_effect:
  assumes "chainFrom (length h) h t = Some ct" and "assignable h t n"
  shows "\<exists>e c. Put iv strict h t n v = Inr (putOwn h t n (Data v True e c))"
proof -
  from assms(1) have pc: "protoChain h t = ct" by (simp add: protoChain_def)
  from chainFrom_hd[OF assms(1)] obtain c1 where ct: "ct = t # c1" by blast
  from assms(2) have ne: "\<not> exotic (h ! t) n" by (simp add: assignable_def)
  show ?thesis
  proof (cases "ownDesc (h ! t) n")
    case None
    with assms(2) pc ct have ex: "extensible (h ! t)"
      and "case findDesc h c1 n of None \<Rightarrow> True | Some (Data u w e c) \<Rightarrow> w | Some (Accessor g s e c) \<Rightarrow> False"
      by (auto simp: assignable_def split: option.splits descriptor.splits)
    with None pc ct ne show ?thesis
      by (auto simp: Put_def storeOwn_def split: option.splits descriptor.splits)
  next
    case (Some d)
    with assms(2) pc ct obtain u e c where d: "d = Data u True e c"
      by (auto simp: assignable_def split: descriptor.splits)
    with Some pc ct ne show ?thesis by (auto simp: Put_def storeOwn_def)
  qed
qed

lemma Put_other:
  assumes "pureCalls iv" and "Put iv strict h t n v = Inr h'" and "m \<noteq> n"
  shows "ownDesc (h' ! a) m = ownDesc (h ! a) m"
proof -
  have so: "\<And>h'. storeOwn strict h t n v = Inr h' \<Longrightarrow> ownDesc (h' ! a) m = ownDesc (h ! a) m"
    using assms(3)
    by (auto simp: storeOwn_def reject_def ownDesc_putOwn_other split: option.splits descriptor.splits if_splits)
  from assms(1,2) so show ?thesis
    by (auto simp: Put_def reject_def split: option.splits descriptor.splits if_splits sum.splits
        dest: call_pure)
qed

lemma assignable_cong:
  assumes "chainFrom (length h) h t = Some ct" and "sameProtos h h'"
    and "\<And>a. a \<in> set ct \<Longrightarrow> ownDesc (h' ! a) n = ownDesc (h ! a) n"
    and "exotic (h' ! t) n = exotic (h ! t) n" and "extensible (h' ! t) = extensible (h ! t)"
  shows "assignable h' t n = assignable h t n"
proof -
  from protoChain_stable[OF assms(1,2)] have pc: "protoChain h' t = ct" "protoChain h t = ct" by simp_all
  have "findDesc h' ct n = findDesc h ct n"
    using assms(3) by (induction ct) (auto split: option.splits)
  moreover from chainFrom_hd[OF assms(1)] have "t \<in> set ct" by auto
  ultimately show ?thesis using pc assms(3)[of t] assms(4,5)
    by (auto simp: assignable_def split: option.splits descriptor.splits)
qed

lemma assignable_extends:
  assumes "chainFrom (length h) h t = Some ct" and "extends h h'" and "assignable h t n"
  shows "assignable h' t n"
proof -
  have same: "\<And>a. a \<in> set ct \<Longrightarrow> h' ! a = h ! a"
    using chainFrom_bound[OF assms(1)] assms(2) by (auto simp: extends_iff)
  from chainFrom_hd[OF assms(1)] have t: "t \<in> set ct" by auto
  from assignable_cong[OF assms(1) extends_sameProtos[OF assms(2)], of n] same same[OF t] assms(3)
  show ?thesis by simp
qed

lemma sameProtos_putOwn: "sameProtos h (putOwn h t n d)"
  by (cases "t < length h") (auto simp: sameProtos_def putOwn_def nth_list_update)

lemma assignable_putOwn:
  assumes "chainFrom (length h) h t = Some ct" and "assignable h t m"
  shows "assignable (putOwn h t n (Data v True e c)) t m"
proof (cases "m = n")
  case False
  have t: "t < length h" using chainFrom_bound[OF assms(1)] chainFrom_hd[OF assms(1)] by auto
  have "assignable (putOwn h t n (Data v True e c)) t m = assignable h t m"
  proof (rule assignable_cong[OF assms(1) sameProtos_putOwn])
    fix a show "ownDesc (putOwn h t n (Data v True e c) ! a) m = ownDesc (h ! a) m"
      by (rule ownDesc_putOwn_other[OF False])
  next
    show "exotic (putOwn h t n (Data v True e c) ! t) m = exotic (h ! t) m"
      by (rule exotic_putOwn[OF t])
  next
    show "extensible (putOwn h t n (Data v True e c) ! t) = extensible (h ! t)"
      using t by (simp add: putOwn_nth)
  qed
  with assms(2) show ?thesis by simp
next
  case True
  have t: "t < length h" using chainFrom_bound[OF assms(1)] chainFrom_hd[OF assms(1)] by auto
  let ?h' = "putOwn h t n (Data v True e c)"
  from protoChain_stable[OF assms(1) sameProtos_putOwn] have pc: "protoChain ?h' t = ct" by simp
  from chainFrom_hd[OF assms(1)] obtain c1 where ct: "ct = t # c1" by blast
  from assms(2) True have ne: "\<not> exotic (h ! t) n" by (simp add: assignable_def)
  from ownDesc_putOwn_same[OF t ne] have "ownDesc (?h' ! t) n = Some (Data v True e c)" .
  with pc ct ne exotic_putOwn[OF t, of n "Data v True e c" n] True show ?thesis
    by (simp add: assignable_def)
qed

lemma chain_putOwn:
  "chainFrom (length h) h t = Some ct \<Longrightarrow> chainFrom (length (putOwn h t' n d)) (putOwn h t' n d) t = Some ct"
  using chainFrom_stable[OF _ sameProtos_putOwn, of "length h" h t ct "length h" t' n d] by simp

lemma chain_extends:
  "chainFrom (length h) h t = Some ct \<Longrightarrow> extends h h' \<Longrightarrow> chainFrom (length h') h' t = Some ct"
  using chainFrom_stable[OF _ extends_sameProtos, of "length h" h t ct h' "length h'"]
  by (simp add: extends_def)

lemma Get_data:
  assumes "Get iv h s n = Inr (h1, v)" and "findDesc h (protoChain h s) n = Some (Data v0 w e c)"
  shows "v = v0"
  using assms by (simp add: Get_def)

lemma valueCarried_clone:
  assumes "allocatesC rc" and "allocatesA ra" and "wellFormed h0" and "changesOnly t h0 h"
    and "okVal (length h0) v"
    and "(if dp then cloneValue rc ra h kw nested v else Inr (h, v)) = Inr (h1, v1)"
    and "\<And>a. target (nested a) = None"
  shows "valueCarried dp h0 v v1"
proof (cases dp)
  case False
  with assms(6) show ?thesis by (simp add: valueCarried_def)
next
  case True
  with assms(6) have c: "cloneValue rc ra h kw nested v = Inr (h1, v1)" by simp
  note res = cloneValue_result[OF assms(1,2,7) c]
  have st: "isArray h v = isArray h0 v \<and> isObject h v = isObject h0 v"
  proof (cases v)
    case (Ref a)
    with assms(5) have a: "a < length h0" by (simp add: okVal_def)
    from wellFormed_chain[OF assms(3) a] obtain ch where "chainFrom (length h0) h0 a = Some ch" by blast
    from isObject_stable[OF assms(4) a this] isArray_stable[OF assms(4) a] Ref show ?thesis by simp
  qed (simp_all add: isArray_def isObject_def)
  from changesOnly_length[OF assms(4)] have "length h0 \<le> length h" .
  with res st True show ?thesis by (auto simp: valueCarried_def split: if_splits)
qed

lemma copyEnumerable_carries:
  assumes "allocatesC rc" and "allocatesA ra" and "pureCalls iv" and "wellFormed h0" and "s < length h0"
    and "chainFrom (length h0) h0 s = Some c" and "t \<notin> set c" and "\<not> descriptors kw"
  shows "changesOnly t h0 h \<Longrightarrow> chainFrom (length h) h t = Some ct \<Longrightarrow>
      \<forall>n \<in> set names. inherited kw \<or> ownDesc (h0 ! s) n \<noteq> None \<longrightarrow> assignable h t n \<Longrightarrow>
      copyEnumerable rc ra iv strict h kw t s names = Inr h' \<Longrightarrow>
      changesOnly t h0 h' \<and> chainFrom (length h') h' t = Some ct \<and>
      (\<forall>m. assignable h t m \<longrightarrow> assignable h' t m) \<and>
      (\<forall>m. \<not> (m \<in> set names \<and> (inherited kw \<or> ownDesc (h0 ! s) m \<noteq> None)) \<longrightarrow>
           ownDesc (h' ! t) m = ownDesc (h ! t) m) \<and>
      (\<forall>n \<in> set names. inherited kw \<or> ownDesc (h0 ! s) n \<noteq> None \<longrightarrow>
         (\<exists>d'. ownDesc (h' ! t) n = Some d' \<and>
            (\<forall>d. getPropertyDescriptor h0 s n = Some d \<longrightarrow> carried kw h0 d d')))"
proof (induction names arbitrary: h)
  case Nil
  then show ?case by simp
next
  case (Cons n names)
  note st = source_stable[OF assms(6,7) Cons.prems(1)]
  let ?sel = "\<lambda>m. inherited kw \<or> ownDesc (h0 ! s) m \<noteq> None"
  have t: "t < length h" using chainFrom_bound[OF Cons.prems(2)] chainFrom_hd[OF Cons.prems(2)] by auto
  show ?case
  proof (cases "?sel n")
    case False
    with Cons.prems(4) st(4)[of n]
    have r: "copyEnumerable rc ra iv strict h kw t s names = Inr h'" by simp
    from Cons.prems(3) have "\<forall>n \<in> set names. ?sel n \<longrightarrow> assignable h t n" by simp
    from Cons.IH[OF Cons.prems(1,2) this r] False show ?thesis by auto
  next
    case True
    with Cons.prems(4) st(4)[of n] obtain h1 v h2 v2 h3 where
      g: "Get iv h s n = Inr (h1, v)"
      and cl: "(if deep kw then cloneValue rc ra h1 kw (nestedOfValue kw) v else Inr (h1, v)) = Inr (h2, v2)"
      and p: "Put iv strict h2 t n v2 = Inr h3"
      and r: "copyEnumerable rc ra iv strict h3 kw t s names = Inr h'"
      by (auto split: sum.splits)
    from Get_pure[OF assms(3) g] have h1: "h1 = h" .
    have nt: "\<And>a. target (nestedOfValue kw a) = None" by (simp add: nestedOfValue_def)
    have e2: "extends h h2"
    proof (cases "deep kw")
      case True
      with cl h1 have "cloneValue rc ra h kw (nestedOfValue kw) v = Inr (h2, v2)" by simp
      from cloneValue_frame[OF assms(1,2) nt this] show ?thesis by simp
    next
      case False
      with cl h1 show ?thesis by simp
    qed
    from Cons.prems(3) True have an: "assignable h t n" by auto
    from assignable_extends[OF Cons.prems(2) e2 an] have an2: "assignable h2 t n" .
    note ch2 = chain_extends[OF Cons.prems(2) e2]
    from Put_effect[OF ch2 an2, of iv strict v2] p obtain e c where
      h3: "h3 = putOwn h2 t n (Data v2 True e c)" by auto
    from e2 t have t2: "t < length h2" by (auto simp: extends_iff)
    from an2 have ne: "\<not> exotic (h2 ! t) n" by (simp add: assignable_def)
    from ownDesc_putOwn_same[OF t2 ne] h3 have own3: "ownDesc (h3 ! t) n = Some (Data v2 True e c)" by simp
    have c3: "changesOnly t h0 h3"
      using Cons.prems(1) e2 h3 changesOnly_putOwn[of t h2 n "Data v2 True e c"]
      by (blast intro: changesOnly_trans extends_changesOnly)
    have ch3: "chainFrom (length h3) h3 t = Some ct" unfolding h3 by (rule chain_putOwn[OF ch2])
    have as3: "\<And>m. assignable h t m \<Longrightarrow> assignable h3 t m"
      unfolding h3 by (rule assignable_putOwn[OF ch2 assignable_extends[OF Cons.prems(2) e2]])
    with Cons.prems(3) have "\<forall>n \<in> set names. ?sel n \<longrightarrow> assignable h3 t n" by simp
    note ih = Cons.IH[OF c3 ch3 this r]
    have oth3: "\<And>m. m \<noteq> n \<Longrightarrow> ownDesc (h3 ! t) m = ownDesc (h ! t) m"
    proof -
      fix m assume "m \<noteq> n"
      from ownDesc_putOwn_other[OF this, of h2 t "Data v2 True e c" t] h3 e2 t
      show "ownDesc (h3 ! t) m = ownDesc (h ! t) m" by (simp add: extends_iff)
    qed
    have car: "\<forall>d. getPropertyDescriptor h0 s n = Some d \<longrightarrow> carried kw h0 d (Data v2 True e c)"
    proof (intro allI impI)
      fix d assume d: "getPropertyDescriptor h0 s n = Some d"
      show "carried kw h0 d (Data v2 True e c)"
      proof (cases d)
        case (Accessor g' s' e' c')
        with assms(8) show ?thesis by (simp add: carried_def)
      next
        case (Data v0 w0 e0 c0)
        from d st(3)[of n] Data have "findDesc h (protoChain h s) n = Some (Data v0 w0 e0 c0)"
          by (simp add: getPropertyDescriptor_def)
        from Get_data[OF g this] have v: "v = v0" .
        from wellFormed_getPropertyDescriptor[OF assms(4,5) d] Data have ok: "okVal (length h0) v0" by simp
        from cl have cl': "(if deep kw then cloneValue rc ra h kw (nestedOfValue kw) v0 else Inr (h, v0)) = Inr (h2, v2)"
          unfolding h1 v .
        have "valueCarried (deep kw) h0 v0 v2"
          by (rule valueCarried_clone[OF assms(1,2,4) Cons.prems(1) ok cl' nt])
        with assms(8) Data show ?thesis by (simp add: carried_def)
      qed
    qed
    show ?thesis
    proof (intro conjI allI impI ballI)
      from ih show "changesOnly t h0 h'" by simp
      from ih show "chainFrom (length h') h' t = Some ct" by simp
    next
      fix m assume "assignable h t m"
      with as3 ih show "assignable h' t m" by blast
    next
      fix m assume m: "\<not> (m \<in> set (n # names) \<and> ?sel m)"
      with True have mn: "m \<noteq> n" by auto
      from m have "\<not> (m \<in> set names \<and> ?sel m)" by auto
      with ih have "ownDesc (h' ! t) m = ownDesc (h3 ! t) m" by blast
      with oth3[OF mn] show "ownDesc (h' ! t) m = ownDesc (h ! t) m" by simp
    next
      fix m assume m: "m \<in> set (n # names)" and sel: "?sel m"
      show "\<exists>d'. ownDesc (h' ! t) m = Some d' \<and> (\<forall>d. getPropertyDescriptor h0 s m = Some d \<longrightarrow> carried kw h0 d d')"
      proof (cases "m \<in> set names")
        case True
        with ih sel show ?thesis by blast
      next
        case False
        with m have mn: "m = n" by simp
        from False ih have "ownDesc (h' ! t) m = ownDesc (h3 ! t) m" by blast
        with own3 car mn show ?thesis by simp
      qed
    qed
  qed
qed

lemma getPropertyNames_walk:
  assumes "chainFrom (length h) h ob = Some c" and "0 < length h" and "proto (h ! ObjectPrototype) = None"
    and "\<forall>n \<in> set (walkedNames h ob). rootFree h n"
  shows "getPropertyNames iv strict h ob
     = Inr (h @ [nameSet (firstSeen [] (walkedNames h ob))], firstSeen [] (walkedNames h ob))"
proof -
  from assms(1) have pc: "protoChain h ob = c" by (simp add: protoChain_def)
  from chainFrom_length[OF assms(1)] have len: "length c \<le> Suc (length h)" by simp
  from assms(4) pc have rf: "\<forall>l \<in> set (walked c). \<forall>n \<in> set (ownNames (h ! l)). rootFree h n"
    by (auto simp: walkedNames_def)
  have ns: "nameSet [] = newObject (Some ObjectPrototype)" by (simp add: nameSet_def newObject_def)
  from walkPrototypes_levels[OF assms(2,3,1) len rf, of iv strict "[]"] pc ns show ?thesis
    by (simp add: getPropertyNames_def alloc_def walkedNames_def del: walkPrototypes.simps)
qed

lemma walked_subset: "set (walked c) \<subseteq> set c"
  by (auto simp: walked_def split: list.splits dest: set_takeWhileD)

lemma forInLevels_cong:
  "(\<And>a. a \<in> set c \<Longrightarrow> h' ! a = h ! a) \<Longrightarrow> forInLevels h' c seen = forInLevels h c seen"
  by (induction c arbitrary: seen) simp_all

lemma forInLevels_found:
  "n \<in> set (forInLevels h c seen) \<Longrightarrow> findDesc h c n \<noteq> None"
  by (induction c arbitrary: seen) (auto split: option.splits)

lemma names_stable:
  assumes "chainFrom (length h0) h0 s = Some c" and "t \<notin> set c" and "changesOnly t h0 h"
  shows "forInNames h s = forInNames h0 s" and "walkedNames h s = walkedNames h0 s"
    and "selected kw h s = selected kw h0 s"
proof -
  note st = source_stable[OF assms]
  have same: "\<And>a. a \<in> set c \<Longrightarrow> h ! a = h0 ! a"
  proof -
    fix a assume a: "a \<in> set c"
    with assms(2) have "a \<noteq> t" by auto
    moreover from chainFrom_bound[OF assms(1)] a have "a < length h0" by auto
    ultimately show "h ! a = h0 ! a" using assms(3) by (auto simp: changesOnly_iff)
  qed
  show f: "forInNames h s = forInNames h0 s"
    using forInLevels_cong[of c h h0 "[]"] same st(1,2) by (simp add: forInNames_def)
  show w: "walkedNames h s = walkedNames h0 s"
  proof -
    have "\<And>x. x \<in> set (walked c) \<Longrightarrow> h ! x = h0 ! x" using same walked_subset[of c] by blast
    then have m: "map (\<lambda>l. ownNames (h ! l)) (walked c) = map (\<lambda>l. ownNames (h0 ! l)) (walked c)" by simp
    show ?thesis unfolding walkedNames_def st(1) st(2) m ..
  qed
  from f w st(4,5) show "selected kw h s = selected kw h0 s" by (simp add: selected_def)
qed

lemma changesOnly_chain:
  "chainFrom (length h) h t = Some ct \<Longrightarrow> changesOnly u h h' \<Longrightarrow> chainFrom (length h') h' t = Some ct"
  using chainFrom_stable[OF _ changesOnly_sameProtos, of "length h" h t ct u h' "length h'"]
  by (simp add: changesOnly_length)

lemma findDesc_own:
  assumes "chainFrom (length h) h s = Some c" and "ownDesc (h ! s) n = Some d"
  shows "getPropertyDescriptor h s n = Some d"
proof -
  from chainFrom_hd[OF assms(1)] obtain c1 where "c = s # c1" by blast
  with assms show ?thesis by (simp add: getPropertyDescriptor_def protoChain_def)
qed

lemma copySource_carries:
  assumes "allocatesC rc" and "allocatesA ra" and "pureCalls iv" and "wellFormed h0" and "s < length h0"
    and "chainFrom (length h0) h0 s = Some c" and "t \<notin> set c"
    and "changesOnly t h0 h" and "chainFrom (length h) h t = Some ct"
    and "\<not> descriptors kw \<Longrightarrow> \<forall>n \<in> set (selected kw h0 s). assignable h t n"
    and "descriptors kw \<Longrightarrow> inherited kw \<Longrightarrow>
           t \<noteq> ObjectPrototype \<and> (\<forall>n \<in> set (walkedNames h0 s). rootFree h0 n)"
    and "copySource rc ra iv strict h kw t s = Inr h'"
  shows "changesOnly t h0 h' \<and> chainFrom (length h') h' t = Some ct \<and>
      (\<not> descriptors kw \<longrightarrow> (\<forall>m. assignable h t m \<longrightarrow> assignable h' t m)) \<and>
      (\<forall>m. m \<notin> set (selected kw h0 s) \<longrightarrow> ownDesc (h' ! t) m = ownDesc (h ! t) m) \<and>
      (\<forall>n \<in> set (selected kw h0 s). \<exists>d d'. getPropertyDescriptor h0 s n = Some d \<and>
          ownDesc (h' ! t) n = Some d' \<and> carried kw h0 d d')"
proof -
  note st = source_stable[OF assms(6,7,8)]
  note fr = copySource_frame[OF assms(1,2,3,12)]
  from changesOnly_trans[OF assms(8) fr] have c': "changesOnly t h0 h'" .
  from changesOnly_chain[OF assms(9) fr] have ch': "chainFrom (length h') h' t = Some ct" .
  have t: "t < length h" using chainFrom_bound[OF assms(9)] chainFrom_hd[OF assms(9)] by auto
  show ?thesis
  proof (cases "descriptors kw")
    case False
    from False assms(12) have ce: "copyEnumerable rc ra iv strict h kw t s (forInNames h0 s) = Inr h'"
      using names_stable(1)[OF assms(6,7,8)] by (simp add: copySource_def)
    have as: "\<forall>n \<in> set (forInNames h0 s). inherited kw \<or> ownDesc (h0 ! s) n \<noteq> None \<longrightarrow> assignable h t n"
      using assms(10)[OF False] False by (auto simp: selected_def)
    note ce' = copyEnumerable_carries[OF assms(1,2,3,4,5,6,7) False assms(8,9) as ce]
    have sel: "set (selected kw h0 s) = {n \<in> set (forInNames h0 s). inherited kw \<or> ownDesc (h0 ! s) n \<noteq> None}"
      using False by (auto simp: selected_def)
    have found: "\<And>n. n \<in> set (forInNames h0 s) \<Longrightarrow> getPropertyDescriptor h0 s n \<noteq> None"
      using forInLevels_found[of _ h0 "protoChain h0 s" "[]"]
      by (simp add: forInNames_def getPropertyDescriptor_def)
    show ?thesis
    proof (intro conjI allI impI ballI)
      show "changesOnly t h0 h'" by (rule c')
      show "chainFrom (length h') h' t = Some ct" by (rule ch')
    next
      fix m assume "assignable h t m"
      with ce' show "assignable h' t m" by blast
    next
      fix m assume "m \<notin> set (selected kw h0 s)"
      with sel have "\<not> (m \<in> set (forInNames h0 s) \<and> (inherited kw \<or> ownDesc (h0 ! s) m \<noteq> None))" by simp
      with ce' show "ownDesc (h' ! t) m = ownDesc (h ! t) m" by blast
    next
      fix n assume n: "n \<in> set (selected kw h0 s)"
      with sel have n1: "n \<in> set (forInNames h0 s)" and n2: "inherited kw \<or> ownDesc (h0 ! s) n \<noteq> None" by simp_all
      from found[OF n1] obtain d where d: "getPropertyDescriptor h0 s n = Some d" by blast
      from ce' n1 n2 obtain d' where "ownDesc (h' ! t) n = Some d'"
        and "\<forall>d. getPropertyDescriptor h0 s n = Some d \<longrightarrow> carried kw h0 d d'" by blast
      with d show "\<exists>d d'. getPropertyDescriptor h0 s n = Some d \<and> ownDesc (h' ! t) n = Some d' \<and> carried kw h0 d d'"
        by blast
    qed
  next
    case True
    from assms(4) have root: "0 < length h0" "proto (h0 ! ObjectPrototype) = None" "ObjectPrototype < length h0"
      by (auto simp: wellFormed_def RegExpPrototype_def ObjectPrototype_def)
    from chainFrom_stable[OF assms(6) changesOnly_sameProtos[OF assms(8)] changesOnly_length[OF assms(8)]]
    have cs: "chainFrom (length h) h s = Some c" .
    have nm: "(if inherited kw then getPropertyNames iv strict h s else Inr (h, ownNames (h ! s)))
        = Inr (if inherited kw then h @ [nameSet (selected kw h0 s)] else h, selected kw h0 s)"
    proof (cases "inherited kw")
      case False
      with True st(5) show ?thesis by (simp add: selected_def)
    next
      case I: True
      from assms(11)[OF True I] have t0: "t \<noteq> ObjectPrototype"
        and rf0: "\<forall>n \<in> set (walkedNames h0 s). rootFree h0 n" by simp_all
      from t0 root(3) assms(8) have r: "h ! ObjectPrototype = h0 ! ObjectPrototype"
        by (auto simp: changesOnly_iff)
      with rf0 names_stable(2)[OF assms(6,7,8)] have rf: "\<forall>n \<in> set (walkedNames h s). rootFree h n"
        by (simp add: rootFree_def)
      from root changesOnly_length[OF assms(8)] r
      have "0 < length h" "proto (h ! ObjectPrototype) = None" by auto
      from getPropertyNames_walk[OF cs this rf, of iv strict] True I names_stable(2)[OF assms(6,7,8)]
      show ?thesis by (simp add: selected_def)
    qed
    let ?h1 = "if inherited kw then h @ [nameSet (selected kw h0 s)] else h"
    from assms(12) True nm have cd: "copyDescriptors rc ra ?h1 kw t s (selected kw h0 s) = Inr h'"
      by (simp add: copySource_def)
    have e1: "extends h ?h1" by (simp add: extends_iff nth_append)
    from changesOnly_trans[OF assms(8) extends_changesOnly[OF e1]] have c1: "changesOnly t h0 ?h1" .
    from e1 t have t1: "t < length ?h1" by (auto simp: extends_iff)
    from e1 t have tt: "?h1 ! t = h ! t" by (auto simp: extends_iff)
    note tr = copyDescriptors_transfers[OF assms(1,2,4,5,6,7) c1 t1 cd]
    show ?thesis
    proof (intro conjI allI impI ballI)
      show "changesOnly t h0 h'" by (rule c')
      show "chainFrom (length h') h' t = Some ct" by (rule ch')
    next
      fix m assume "\<not> descriptors kw" "assignable h t m"
      with True show "assignable h' t m" by simp
    next
      fix m assume "m \<notin> set (selected kw h0 s)"
      from copyDescriptors_other[OF assms(1,2) cd t1 this] tt
      show "ownDesc (h' ! t) m = ownDesc (h ! t) m" by simp
    next
      fix n assume n: "n \<in> set (selected kw h0 s)"
      with tr obtain d d' where
        d: "(if inherited kw then getPropertyDescriptor h0 s n else ownDesc (h0 ! s) n) = Some d"
        and d': "ownDesc (h' ! t) n = Some d'" and tf: "transferred (deep kw) h0 d d'" by blast
      from d findDesc_own[OF assms(6), of n d] have "getPropertyDescriptor h0 s n = Some d"
        by (auto split: if_splits)
      with d' tf True
      show "\<exists>d d'. getPropertyDescriptor h0 s n = Some d \<and> ownDesc (h' ! t) n = Some d' \<and> carried kw h0 d d'"
        by (auto simp: carried_def)
    qed
  qed
qed

lemma winner_Cons:
  "winner kw h (s # ss) n =
     (case winner kw h ss n of Some w \<Rightarrow> Some w
      | None \<Rightarrow> if n \<in> set (selected kw h s) then Some s else None)"
  by (auto simp: winner_def split: list.splits)

lemma winner_some:
  "s \<in> set ss \<Longrightarrow> n \<in> set (selected kw h s) \<Longrightarrow> \<exists>w. winner kw h ss n = Some w"
proof -
  assume "s \<in> set ss" "n \<in> set (selected kw h s)"
  then have "s \<in> set (filter (\<lambda>s. n \<in> set (selected kw h s)) ss)" by simp
  then show ?thesis by (cases "filter (\<lambda>s. n \<in> set (selected kw h s)) ss") (auto simp: winner_def)
qed

lemma copySources_carries:
  assumes "allocatesC rc" and "allocatesA ra" and "pureCalls iv" and "wellFormed h0"
    and "\<not> descriptors kw \<or> \<not> inherited kw \<or> t \<noteq> ObjectPrototype"
  shows "\<forall>s \<in> set ss. s < length h0 \<and> t \<notin> set (protoChain h0 s) \<Longrightarrow>
    changesOnly t h0 h \<Longrightarrow> chainFrom (length h) h t = Some ct \<Longrightarrow>
    \<not> descriptors kw \<longrightarrow> (\<forall>s \<in> set ss. \<forall>n \<in> set (selected kw h0 s). assignable h t n) \<Longrightarrow>
    descriptors kw \<and> inherited kw \<longrightarrow> (\<forall>s \<in> set ss. \<forall>n \<in> set (walkedNames h0 s). rootFree h0 n) \<Longrightarrow>
    copySources rc ra iv strict h kw t ss = Inr h' \<Longrightarrow>
    (\<forall>n. case winner kw h0 ss n of
        None \<Rightarrow> ownDesc (h' ! t) n = ownDesc (h ! t) n
      | Some s \<Rightarrow> (\<exists>d d'. getPropertyDescriptor h0 s n = Some d \<and> ownDesc (h' ! t) n = Some d' \<and>
                            carried kw h0 d d'))"
proof (induction ss arbitrary: h)
  case Nil
  then show ?case by (simp add: winner_def)
next
  case (Cons s ss)
  from Cons.prems(6) obtain h1 where
    cs: "copySource rc ra iv strict h kw t s = Inr h1"
    and r: "copySources rc ra iv strict h1 kw t ss = Inr h'"
    by (auto split: sum.splits)
  from Cons.prems(1) have s: "s < length h0" and tn: "t \<notin> set (protoChain h0 s)" by simp_all
  from wellFormed_chain[OF assms(4) s] obtain c where c: "chainFrom (length h0) h0 s = Some c" by blast
  with tn have tc: "t \<notin> set c" by (simp add: protoChain_def)
  have a1: "\<not> descriptors kw \<Longrightarrow> \<forall>n \<in> set (selected kw h0 s). assignable h t n"
    using Cons.prems(4) by simp
  have a2: "descriptors kw \<Longrightarrow> inherited kw \<Longrightarrow>
      t \<noteq> ObjectPrototype \<and> (\<forall>n \<in> set (walkedNames h0 s). rootFree h0 n)"
    using Cons.prems(5) assms(5) by simp
  note step = copySource_carries[OF assms(1,2,3,4) s c tc Cons.prems(2,3) a1 a2 cs]
  from step have c1: "changesOnly t h0 h1" and ch1: "chainFrom (length h1) h1 t = Some ct" by simp_all
  from Cons.prems(1) have p1: "\<forall>s \<in> set ss. s < length h0 \<and> t \<notin> set (protoChain h0 s)" by simp
  from Cons.prems(4) step
  have p4: "\<not> descriptors kw \<longrightarrow> (\<forall>s \<in> set ss. \<forall>n \<in> set (selected kw h0 s). assignable h1 t n)"
    by auto
  from Cons.prems(5)
  have p5: "descriptors kw \<and> inherited kw \<longrightarrow> (\<forall>s \<in> set ss. \<forall>n \<in> set (walkedNames h0 s). rootFree h0 n)"
    by simp
  note ih = Cons.IH[OF p1 c1 ch1 p4 p5 r]
  show ?case
  proof
    fix n
    show "case winner kw h0 (s # ss) n of
        None \<Rightarrow> ownDesc (h' ! t) n = ownDesc (h ! t) n
      | Some s \<Rightarrow> (\<exists>d d'. getPropertyDescriptor h0 s n = Some d \<and> ownDesc (h' ! t) n = Some d' \<and>
                            carried kw h0 d d')"
    proof (cases "winner kw h0 ss n")
      case (Some w)
      with ih[rule_format, of n] show ?thesis by (simp add: winner_Cons)
    next
      case None
      with ih[rule_format, of n] have eq: "ownDesc (h' ! t) n = ownDesc (h1 ! t) n" by simp
      show ?thesis
      proof (cases "n \<in> set (selected kw h0 s)")
        case True
        with step obtain d d' where "getPropertyDescriptor h0 s n = Some d" "ownDesc (h1 ! t) n = Some d'"
          "carried kw h0 d d'" by blast
        with eq None True show ?thesis by (simp add: winner_Cons)
      next
        case False
        with step have "ownDesc (h1 ! t) n = ownDesc (h ! t) n" by blast
        with eq None False show ?thesis by (simp add: winner_Cons)
      qed
    qed
  qed
qed

lemma newTarget_chain:
  assumes "wellFormed h" and "sources kw \<noteq> []" and "hd (sources kw) < length h"
    and "newTarget h kw = (h1, t)" and "t < length h1"
  shows "extends h h1 \<and> (\<exists>ct. chainFrom (length h1) h1 t = Some ct)"
proof -
  have fresh: "\<And>p. (case p of None \<Rightarrow> True | Some a \<Rightarrow> a < length h) \<Longrightarrow>
      \<exists>ct. chainFrom (Suc (length h)) (h @ [newObject p]) (length h) = Some ct"
  proof -
    fix p assume p: "case p of None \<Rightarrow> True | Some a \<Rightarrow> a < length h"
    show "\<exists>ct. chainFrom (Suc (length h)) (h @ [newObject p]) (length h) = Some ct"
    proof (cases p)
      case None
      then show ?thesis by (simp add: newObject_def)
    next
      case (Some a)
      with p have "a < length h" by simp
      from wellFormed_chain[OF assms(1) this] obtain ca where ca: "chainFrom (length h) h a = Some ca" by blast
      have "sameProtos h (h @ [newObject p])" by (simp add: sameProtos_def nth_append)
      from chainFrom_stable[OF ca this, of "length h"] Some show ?thesis by (simp add: newObject_def)
    qed
  qed
  from assms(1) have root: "ObjectPrototype < length h"
    by (auto simp: wellFormed_def RegExpPrototype_def ObjectPrototype_def)
  from wellFormed_okObj[OF assms(1,3)] have ps: "case proto (h ! hd (sources kw)) of None \<Rightarrow> True | Some a \<Rightarrow> a < length h"
    by (simp add: okObj_def)
  show ?thesis
  proof (cases "assignPrototype kw \<or> target kw = None")
    case True
    with assms(4) fresh[OF ps] fresh[of "Some ObjectPrototype"] root show ?thesis
      by (auto simp: newTarget_def alloc_def extends_iff nth_append split: if_splits)
  next
    case False
    with assms(4,5) wellFormed_chain[OF assms(1), of t] show ?thesis
      by (auto simp: newTarget_def)
  qed
qed
section \<open>The properties of the sources on the result\<close>




end
